theory Spec2Isabelle
  imports Complex_Main "HOL-Library.Log_Nat" "HOL-Library.AList"
begin

section \<open>Python values used by the progress computation\<close>

text \<open>
  The exception classes that the handlers of \<^verbatim>\<open>YoutubeDownloader.download_video\<close>
  tell apart, together with the two arithmetic errors that the percent computation can
  raise. Every constructor is a subclass of Python's \<^verbatim>\<open>Exception\<close>.
\<close>

datatype exn =
    DownloadCancelledError
  | DownloadError
  | OSError
  | ZeroDivisionError
  | OverflowError
  | OtherException

subsection \<open>Binary64 arithmetic\<close>

text \<open>
  \<^verbatim>\<open>downloaded_bytes / total_bytes\<close> is Python's true division: the exact quotient
  rounded to the nearest IEEE binary64 value, ties to even. A finite double is kept as
  the rational number it denotes. \<open>rhe\<close> rounds a rational to the nearest integer, ties
  to even; \<open>ilog2\<close> is the binary exponent \<open>\<lfloor>log\<^sub>2 x\<rfloor>\<close> of a positive rational; \<open>fl\<close>
  rounds to 53 significant bits, with the exponent held at \<open>-1074\<close> in the subnormal
  range.
\<close>

definition rhe :: "rat \<Rightarrow> int" where
  "rhe x = (let f = \<lfloor>x\<rfloor>; r = x - of_int f
            in if r < 1 / 2 then f
               else if 1 / 2 < r then f + 1
               else if even f then f else f + 1)"

definition ilog2 :: "rat \<Rightarrow> int" where
  "ilog2 x = (let (a, b) = quotient_of x; k = bitlen a - bitlen b
              in if 2 powi k \<le> x then k else k - 1)"

definition fl :: "rat \<Rightarrow> rat" where
  "fl x = (if x = 0 then 0
           else let e = max (ilog2 \<bar>x\<bar> - 52) (- 1074)
                in sgn x * of_int (rhe (\<bar>x\<bar> / 2 powi e)) * 2 powi e)"

text \<open>A rounded magnitude of \<open>2\<^sup>1\<^sup>0\<^sup>2\<^sup>4\<close> or more is outside the finite doubles.\<close>

definition dbl_overflow :: "rat \<Rightarrow> bool" where
  "dbl_overflow r = (2 ^ 1024 \<le> \<bar>r\<bar>)"

text \<open>\<^verbatim>\<open>a / b\<close> on two Python ints.\<close>

definition int_truediv :: "int \<Rightarrow> int \<Rightarrow> exn + rat" where
  "int_truediv a b =
     (if b = 0 then Inl ZeroDivisionError
      else let r = fl (of_int a / of_int b)
           in if dbl_overflow r then Inl OverflowError else Inr r)"

text \<open>\<^verbatim>\<open>int(x)\<close> on a finite float truncates towards zero.\<close>

definition py_int :: "rat \<Rightarrow> int" where
  "py_int r = (if 0 \<le> r then \<lfloor>r\<rfloor> else \<lceil>r\<rceil>)"

text \<open>
  \<^verbatim>\<open>int((downloaded_bytes / total_bytes) * 100)\<close>. A product beyond the finite doubles
  is \<^verbatim>\<open>inf\<close>, and \<^verbatim>\<open>int(inf)\<close> raises \<^verbatim>\<open>OverflowError\<close>.
\<close>

definition percent_of :: "int \<Rightarrow> int \<Rightarrow> exn + int" where
  "percent_of downloaded tot =
     (case int_truediv downloaded tot of
        Inl e \<Rightarrow> Inl e
      | Inr q \<Rightarrow>
          (let p = fl (q * 100)
           in if dbl_overflow p then Inl OverflowError else Inr (py_int p)))"

section \<open>Raw progress callbacks and normalized events\<close>

text \<open>
  The dictionary \<^verbatim>\<open>d\<close> that the download library hands to a progress hook. Byte
  counters are Python ints; \<open>None\<close> stands for a key that is absent or holds
  \<^verbatim>\<open>None\<close> (both are falsy, and \<^verbatim>\<open>d.get('downloaded_bytes', 0)\<close> is falsy for
  both). The display strings (speed, eta, filename, error text) are not part of the
  model.
\<close>

datatype hook_status = Downloading | Finished | Error | OtherStatus

record raw_progress =
  status :: hook_status
  total_bytes :: "int option"
  total_bytes_estimate :: "int option"
  downloaded_bytes :: "int option"

text \<open>Truthiness of an optional int, and \<^verbatim>\<open>a or b\<close>.\<close>

definition truthy :: "int option \<Rightarrow> bool" where
  "truthy v = (case v of None \<Rightarrow> False | Some n \<Rightarrow> n \<noteq> 0)"

definition py_or :: "int option \<Rightarrow> int option \<Rightarrow> int option" where
  "py_or a b = (if truthy a then a else b)"

text \<open>The dictionary passed to \<^verbatim>\<open>progress_callback\<close>: its percent and its status.\<close>

datatype out_status = SDownloading | SConverting | SComplete | SCancelled | SError

record progress_info =
  percent :: int
  pstatus :: out_status

definition terminal :: "progress_info \<Rightarrow> bool" where
  "terminal e = (pstatus e = SComplete \<or> pstatus e = SCancelled \<or> pstatus e = SError)"

text \<open>
  The percent of a \<^verbatim>\<open>'downloading'\<close> callback in
  \<^verbatim>\<open>YTDownloader2025_SonnetEditsV7_TP.py\<close> (lines 286-295) and in
  \<^verbatim>\<open>YTDownloader2025.py\<close> (lines 30-35): the arguments are the total (after
  \<^verbatim>\<open>or\<close>) and the downloaded counter.
\<close>

fun hook_percent :: "int option \<Rightarrow> int option \<Rightarrow> exn + int" where
  "hook_percent (Some t) (Some d) = (if t \<noteq> 0 \<and> d \<noteq> 0 then percent_of d t else Inr 0)"
| "hook_percent _ _ = Inr 0"

text \<open>
  The same in \<^verbatim>\<open>YTDownloader2025v7.1.py\<close> (lines 291-303), with its extra branch
  \<^verbatim>\<open>elif d.get('downloaded_bytes'): progress_info['percent'] = 50\<close>.
\<close>

fun hook_percent_v71 :: "int option \<Rightarrow> int option \<Rightarrow> exn + int" where
  "hook_percent_v71 (Some t) (Some d) =
     (if t \<noteq> 0 \<and> d \<noteq> 0 then percent_of d t else if d \<noteq> 0 then Inr 50 else Inr 0)"
| "hook_percent_v71 None (Some d) = (if d \<noteq> 0 then Inr 50 else Inr 0)"
| "hook_percent_v71 _ None = Inr 0"

section \<open>The downloader object\<close>

text \<open>
  The fields of \<^verbatim>\<open>YoutubeDownloader\<close> that its methods read and write.
  \<open>ydl_instance\<close> and \<open>progress_callback\<close> record whether the attribute is set
  (not \<^verbatim>\<open>None\<close>). The observer is the list of dictionaries that
  \<^verbatim>\<open>progress_callback\<close> has received, oldest first; \<open>swept\<close> lists the directories on
  which \<^verbatim>\<open>_cleanup_temp_files\<close> has been called.
\<close>

record downloader =
  downloading :: bool
  cancel_requested :: bool
  ydl_instance :: bool
  progress_callback :: bool

record world = downloader +
  events :: "progress_info list"
  swept :: "string list"

text \<open>\<^verbatim>\<open>if self.progress_callback: self.progress_callback(info)\<close>\<close>

definition emit :: "progress_info \<Rightarrow> world \<Rightarrow> world" where
  "emit e w = (if progress_callback w then w\<lparr>events := events w @ [e]\<rparr> else w)"

text \<open>
  \<^verbatim>\<open>YoutubeDownloader.cancel_download\<close> (lines 320-331). The call of
  \<^verbatim>\<open>interrupt_download\<close> sits in a \<^verbatim>\<open>try\<close> whose bare \<^verbatim>\<open>except\<close> discards
  every failure, and it touches no field of the downloader.
\<close>

definition cancel_download :: "world \<Rightarrow> world \<times> bool" where
  "cancel_download w =
     (if downloading w then (w\<lparr>cancel_requested := True\<rparr>, True) else (w, False))"

text \<open>\<^verbatim>\<open>YoutubeDownloader.progress_hook\<close> of the V7 file (lines 262-318).\<close>

definition progress_hook :: "world \<Rightarrow> raw_progress \<Rightarrow> exn + world" where
  "progress_hook w d =
     (if \<not> downloading w \<or> cancel_requested w then
        (if cancel_requested w \<and> status d = Downloading
         then Inl DownloadCancelledError else Inr w)
      else case status d of
        Downloading \<Rightarrow>
          (case hook_percent (py_or (total_bytes d) (total_bytes_estimate d))
                  (downloaded_bytes d) of
             Inl e \<Rightarrow> Inl e
           | Inr p \<Rightarrow> Inr (emit \<lparr>percent = p, pstatus = SDownloading\<rparr> w))
      | Finished \<Rightarrow> Inr (emit \<lparr>percent = 95, pstatus = SConverting\<rparr> w)
      | Error \<Rightarrow> Inr (emit \<lparr>percent = 0, pstatus = SError\<rparr> w)
      | OtherStatus \<Rightarrow> Inr w)"

text \<open>
  \<^verbatim>\<open>YoutubeDownloader.progress_hook\<close> of \<^verbatim>\<open>YTDownloader2025v7.1.py\<close>
  (lines 272-326): the same guard and the same branches, with the percent of that file.
\<close>

definition progress_hook_v71 :: "world \<Rightarrow> raw_progress \<Rightarrow> exn + world" where
  "progress_hook_v71 w d =
     (if \<not> downloading w \<or> cancel_requested w then
        (if cancel_requested w \<and> status d = Downloading
         then Inl DownloadCancelledError else Inr w)
      else case status d of
        Downloading \<Rightarrow>
          (case hook_percent_v71 (py_or (total_bytes d) (total_bytes_estimate d))
                  (downloaded_bytes d) of
             Inl e \<Rightarrow> Inl e
           | Inr p \<Rightarrow> Inr (emit \<lparr>percent = p, pstatus = SDownloading\<rparr> w))
      | Finished \<Rightarrow> Inr (emit \<lparr>percent = 95, pstatus = SConverting\<rparr> w)
      | Error \<Rightarrow> Inr (emit \<lparr>percent = 0, pstatus = SError\<rparr> w)
      | OtherStatus \<Rightarrow> Inr w)"

text \<open>
  The nested \<^verbatim>\<open>progress_hook\<close> of \<^verbatim>\<open>YTDownloader2025.py\<close> (lines 28-36). Its
  callback takes the bare percent; the result lists the values passed to it by one
  call of the hook.
\<close>

definition progress_hook_2025 :: "raw_progress \<Rightarrow> exn + int list" where
  "progress_hook_2025 d =
     (if status d = Downloading then
        (case hook_percent (py_or (total_bytes d) (total_bytes_estimate d))
                (downloaded_bytes d) of
           Inl e \<Rightarrow> Inl e
         | Inr progress \<Rightarrow> Inr [progress])
      else Inr [])"

text \<open>A hook called once per raw callback, in order, until one call raises.\<close>

fun run_hooks :: "world \<Rightarrow> raw_progress list \<Rightarrow> exn + world" where
  "run_hooks w [] = Inr w"
| "run_hooks w (d # ds) =
     (case progress_hook w d of Inl e \<Rightarrow> Inl e | Inr w' \<Rightarrow> run_hooks w' ds)"

fun run_hooks_2025 :: "raw_progress list \<Rightarrow> exn + int list" where
  "run_hooks_2025 [] = Inr []"
| "run_hooks_2025 (d # ds) =
     (case progress_hook_2025 d of
        Inl e \<Rightarrow> Inl e
      | Inr ps \<Rightarrow> (case run_hooks_2025 ds of Inl e \<Rightarrow> Inl e | Inr qs \<Rightarrow> Inr (ps @ qs)))"

text \<open>
  A \<^verbatim>\<open>'downloading'\<close> callback with a known total and a downloaded counter; the
  estimate may hold anything.
\<close>

definition downloading_callback :: "int \<Rightarrow> int option \<Rightarrow> int \<Rightarrow> raw_progress" where
  "downloading_callback tot est n =
     \<lparr>status = Downloading, total_bytes = Some tot, total_bytes_estimate = est,
      downloaded_bytes = Some n\<rparr>"

text \<open>
  The percent as the specification words it, \<open>floor(downloaded/total*100)\<close>, with the
  quotient and the product taken in double precision as Python takes them.
\<close>

definition spec_percent :: "int \<Rightarrow> int \<Rightarrow> int" where
  "spec_percent n tot = \<lfloor>fl (fl (of_int n / of_int tot) * 100)\<rfloor>"

section \<open>One download\<close>

text \<open>
  What the surroundings do during one call of
  \<^verbatim>\<open>YoutubeDownloader.download_video\<close>: whether constructing the
  \<^verbatim>\<open>YoutubeDL\<close> object raises; whether line 588 (the cached
  \<^verbatim>\<open>current_info\<close>, or else \<^verbatim>\<open>extract_info\<close>) and the lookup of the title
  raise or yield the title (if the info has one); whether the foreground thread calls
  \<^verbatim>\<open>cancel_download\<close> before the check of line 595; the hook calls made by
  \<^verbatim>\<open>ydl.download\<close> interleaved with cancel calls of the foreground thread; and how
  \<^verbatim>\<open>ydl.download\<close> ends when no hook raises (\<open>None\<close>: it returns). The flag
  \<open>cancel_requested\<close> is read only at line 595 and inside the hook, so these are all
  the places where a cancel call can make a difference. An exception raised by the hook
  ends \<^verbatim>\<open>ydl.download\<close> and comes out of it as it is (\<^verbatim>\<open>ignoreerrors\<close> is
  \<^verbatim>\<open>False\<close>).
\<close>

datatype lib_step = Hook raw_progress | CancelClick

record lib_script =
  ydl_open :: "exn option"
  extract_info :: "exn + string option"
  cancel_before_download :: bool
  during_download :: "lib_step list"
  download_end :: "exn option"

fun run_download :: "world \<Rightarrow> lib_step list \<Rightarrow> exn option \<Rightarrow> world \<times> exn option" where
  "run_download w [] fin = (w, fin)"
| "run_download w (CancelClick # rest) fin = run_download (fst (cancel_download w)) rest fin"
| "run_download w (Hook d # rest) fin =
     (case progress_hook w d of
        Inl e \<Rightarrow> (w, Some e)
      | Inr w' \<Rightarrow> run_download w' rest fin)"

text \<open>No hook call of the script carries the status \<^verbatim>\<open>'error'\<close>.\<close>

definition error_free :: "lib_step list \<Rightarrow> bool" where
  "error_free steps =
     list_all (\<lambda>s. case s of Hook d \<Rightarrow> status d \<noteq> Error | CancelClick \<Rightarrow> True) steps"

text \<open>A call of \<^verbatim>\<open>_cleanup_temp_files(directory)\<close>, as an entry of the trace.\<close>

definition sweep :: "string \<Rightarrow> world \<Rightarrow> world" where
  "sweep directory w = w\<lparr>swept := swept w @ [directory]\<rparr>"

text \<open>
  The \<^verbatim>\<open>try\<close> block of \<^verbatim>\<open>download_video\<close> (lines 493-615): the world it leaves,
  the value of \<^verbatim>\<open>video_title\<close>, and the exception it raised, if any.
\<close>

definition try_block :: "lib_script \<Rightarrow> string \<Rightarrow> world \<Rightarrow> world \<times> string \<times> exn option" where
  "try_block env download_dir w =
     (case ydl_open env of
        Some e \<Rightarrow> (w, ''Unknown'', Some e)
      | None \<Rightarrow>
          (let w1 = w\<lparr>ydl_instance := True\<rparr> in
           case extract_info env of
             Inl e \<Rightarrow> (w1, ''Unknown'', Some e)
           | Inr t \<Rightarrow>
               (let video_title = (case t of None \<Rightarrow> ''Unknown title'' | Some x \<Rightarrow> x);
                    w2 = (if cancel_before_download env then fst (cancel_download w1) else w1)
                in if cancel_requested w2 then (w2, video_title, Some DownloadCancelledError)
                   else case run_download w2 (during_download env) (download_end env) of
                          (w3, Some e) \<Rightarrow> (w3, video_title, Some e)
                        | (w3, None) \<Rightarrow>
                            (emit \<lparr>percent = 100, pstatus = SComplete\<rparr> (sweep download_dir w3),
                             video_title, None))))"

text \<open>
  \<^verbatim>\<open>YoutubeDownloader.download_video\<close> (lines 477-683): the flags set on entry,
  the \<^verbatim>\<open>try\<close> block, the four handlers and the \<^verbatim>\<open>finally\<close> block. The result is
  the pair \<^verbatim>\<open>(video_title, success)\<close>. The URL, the format and the file name template
  only reach the options of the library.
\<close>

definition download_video :: "lib_script \<Rightarrow> string \<Rightarrow> world \<Rightarrow> world \<times> string \<times> bool" where
  "download_video env download_dir w =
     (let w0 = w\<lparr>downloading := True, cancel_requested := False\<rparr>;
          (w1, video_title, raised) = try_block env download_dir w0;
          (w2, success) =
            (case raised of
               None \<Rightarrow> (w1, True)
             | Some DownloadCancelledError \<Rightarrow>
                 (sweep download_dir (emit \<lparr>percent = 0, pstatus = SCancelled\<rparr> w1), False)
             | Some _ \<Rightarrow> (emit \<lparr>percent = 0, pstatus = SError\<rparr> w1, False))
      in (w2\<lparr>downloading := False, cancel_requested := False, ydl_instance := False\<rparr>,
          video_title, success))"

section \<open>Starting a download from the window\<close>

text \<open>
  \<^verbatim>\<open>is_valid_youtube_url\<close>: \<^verbatim>\<open>re.match\<close> of
  \<^verbatim>\<open>^(https?\:\/\/)?(www\.youtube\.com|youtu\.?be)\/.+$\<close>. The dot matches every
  character but a line feed, and \<^verbatim>\<open>$\<close> matches at the end or before a final line
  feed.
\<close>

definition startswith :: "string \<Rightarrow> string \<Rightarrow> bool" where
  "startswith s p = (take (length p) s = p)"

definition url_rest_ok :: "string \<Rightarrow> bool" where
  "url_rest_ok r =
     (let body = (if r \<noteq> [] \<and> last r = CHR 0x0A then butlast r else r)
      in body \<noteq> [] \<and> CHR 0x0A \<notin> set body)"

definition url_from_host :: "string \<Rightarrow> bool" where
  "url_from_host s =
     list_ex (\<lambda>h. startswith s (h @ ''/'') \<and> url_rest_ok (drop (length h + 1) s))
       [''www.youtube.com'', ''youtu.be'', ''youtube'']"

definition is_valid_youtube_url :: "string \<Rightarrow> bool" where
  "is_valid_youtube_url url =
     ((startswith url ''http://'' \<and> url_from_host (drop 7 url))
      \<or> (startswith url ''https://'' \<and> url_from_host (drop 8 url))
      \<or> url_from_host url)"

text \<open>
  The operating system as the window sees it: \<^verbatim>\<open>os.path.isdir\<close>,
  \<^verbatim>\<open>os.access(_, os.W_OK)\<close> and \<^verbatim>\<open>shutil.which("ffmpeg")\<close>.
\<close>

record os_env =
  isdir :: "string \<Rightarrow> bool"
  writable :: "string \<Rightarrow> bool"
  ffmpeg_on_path :: bool

definition validate_directory :: "os_env \<Rightarrow> string \<Rightarrow> bool" where
  "validate_directory os directory = (isdir os directory \<and> writable os directory)"

definition is_ffmpeg_installed :: "os_env \<Rightarrow> bool" where
  "is_ffmpeg_installed os = ffmpeg_on_path os"

text \<open>
  The fields of \<^verbatim>\<open>DownloadManagerApp\<close> that \<^verbatim>\<open>download_video\<close> and
  \<^verbatim>\<open>fetch_video_info\<close> touch: the progress flag, whether \<^verbatim>\<open>video_info\<close> is
  set, the state of the three buttons, and the number of download threads
  (\<^verbatim>\<open>active_downloads\<close>) and fetch threads started so far.
\<close>

record app =
  download_in_progress :: bool
  video_info :: bool
  download_button :: bool
  fetch_button :: bool
  cancel_button :: bool
  download_threads :: nat
  fetch_threads :: nat

text \<open>The message boxes of the two methods.\<close>

datatype message =
    EnterUrl
  | InvalidUrl
  | InvalidDirectory
  | FfmpegMissing
  | WaitForInfo

text \<open>
  \<^verbatim>\<open>DownloadManagerApp.fetch_video_info\<close> (lines 1088-1157), up to the start of its
  thread; \<open>url\<close> is the stripped text of the entry.
\<close>

definition fetch_video_info :: "string \<Rightarrow> app \<Rightarrow> app \<times> message option" where
  "fetch_video_info url a =
     (if url = [] then (a, Some EnterUrl)
      else if \<not> is_valid_youtube_url url then (a, Some InvalidUrl)
      else (a\<lparr>fetch_button := False, download_button := False,
               fetch_threads := fetch_threads a + 1\<rparr>, None))"

text \<open>
  \<^verbatim>\<open>DownloadManagerApp.download_video\<close> (lines 1411-1511), up to the start of its
  thread; \<open>url\<close> and \<open>download_dir\<close> are the stripped texts of the two entries. The
  result is the message box shown, or \<open>None\<close> when the download thread was started.
\<close>

definition app_download_video ::
    "os_env \<Rightarrow> string \<Rightarrow> string \<Rightarrow> app \<Rightarrow> app \<times> message option" where
  "app_download_video os url download_dir a =
     (if url = [] then (a, Some EnterUrl)
      else if \<not> is_valid_youtube_url url then (a, Some InvalidUrl)
      else if \<not> validate_directory os download_dir then (a, Some InvalidDirectory)
      else if \<not> is_ffmpeg_installed os then (a, Some FfmpegMissing)
      else if \<not> video_info a then (fst (fetch_video_info url a), Some WaitForInfo)
      else (a\<lparr>download_button := False, fetch_button := False, cancel_button := True,
               download_in_progress := True,
               download_threads := download_threads a + 1\<rparr>, None))"

section \<open>Temporary files\<close>

text \<open>
  A directory maps the names of its entries to their contents. \<open>None\<close> is a directory
  that \<^verbatim>\<open>os.listdir\<close> cannot list.
\<close>

type_synonym 'c directory = "(string \<times> 'c) list"

definition temp_extensions :: "string list" where
  "temp_extensions =
     [''.part'', ''.temp'', ''.f140.mp4'', ''.f137.mp4'',
      ''.f401.mp4'', ''.m4a'', ''.webm'', ''.ytdl'']"

definition endswith :: "string \<Rightarrow> string \<Rightarrow> bool" where
  "endswith s suf = (length suf \<le> length s \<and> drop (length s - length suf) s = suf)"

definition is_temp :: "string \<Rightarrow> bool" where
  "is_temp file = list_ex (endswith file) temp_extensions"

text \<open>
  The loop of \<^verbatim>\<open>_cleanup_temp_files\<close> (lines 696-706) over the listing taken at its
  start. \<open>rm file\<close> tells whether \<^verbatim>\<open>os.remove\<close> succeeds on that entry; when it
  raises \<^verbatim>\<open>OSError\<close> the handler logs a warning and the loop goes on.
\<close>

fun cleanup_loop :: "(string \<Rightarrow> bool) \<Rightarrow> string list \<Rightarrow> 'c directory \<Rightarrow> 'c directory" where
  "cleanup_loop rm [] fs = fs"
| "cleanup_loop rm (file # rest) fs =
     cleanup_loop rm rest (if is_temp file \<and> rm file then AList.delete file fs else fs)"

text \<open>
  \<^verbatim>\<open>_cleanup_temp_files\<close> (lines 685-709). When \<^verbatim>\<open>os.listdir\<close> raises, the outer
  handler logs a warning and nothing is removed.
\<close>

definition cleanup_temp_files ::
    "(string \<Rightarrow> bool) \<Rightarrow> 'c directory option \<Rightarrow> 'c directory option" where
  "cleanup_temp_files rm directory =
     (case directory of
        None \<Rightarrow> None
      | Some fs \<Rightarrow> Some (cleanup_loop rm (map fst fs) fs))"

section \<open>Moving the finished file into the destination\<close>

text \<open>\<^verbatim>\<open>str(counter)\<close> of a counter that starts at 1 and only grows.\<close>

definition digit_char :: "nat \<Rightarrow> char" where
  "digit_char n = ''0123456789'' ! n"

fun str_nat :: "nat \<Rightarrow> string" where
  "str_nat n = (if n < 10 then [digit_char n] else str_nat (n div 10) @ [digit_char (n mod 10)])"

declare str_nat.simps [simp del]

text \<open>\<^verbatim>\<open>os.path.join\<close> with two arguments, as \<^verbatim>\<open>posixpath\<close> defines it.\<close>

definition os_path_join :: "string \<Rightarrow> string \<Rightarrow> string" where
  "os_path_join a b =
     (if startswith b ''/'' then b
      else if a = [] \<or> endswith a ''/'' then a @ b
      else a @ ''/'' @ b)"

text \<open>The file name built inside the loop (lines 580-583).\<close>

definition numbered_name :: "string \<Rightarrow> nat \<Rightarrow> string \<Rightarrow> string" where
  "numbered_name base_filename counter final_ext =
     (if final_ext = ''mp3''
      then base_filename @ '' ('' @ str_nat counter @ '') (Audio).'' @ final_ext
      else base_filename @ '' ('' @ str_nat counter @ '') (Video).'' @ final_ext)"

text \<open>
  The file system maps the paths that exist to their contents;
  \<^verbatim>\<open>os.path.exists\<close> looks a path up.
\<close>

type_synonym 'c files = "(string \<times> 'c) list"

definition path_exists :: "'c files \<Rightarrow> string \<Rightarrow> bool" where
  "path_exists fs p = (map_of fs p \<noteq> None)"

text \<open>
  The loop of lines 577-585 ends because the numbered names differ from each other and
  only finitely many paths exist. The facts below carry the termination proof.
\<close>

lemma digit_char_inj: "n < 10 \<Longrightarrow> m < 10 \<Longrightarrow> digit_char n = digit_char m \<Longrightarrow> n = m"
proof -
  assume a: "n < 10" "m < 10" "digit_char n = digit_char m"
  have d: "distinct ''0123456789''" by simp
  have l: "length ''0123456789'' = 10" by simp
  from a show ?thesis
    unfolding digit_char_def using nth_eq_iff_index_eq [OF d, of n m] l by simp
qed

lemma str_nat_not_Nil: "str_nat n \<noteq> []"
  by (subst str_nat.simps) simp

lemma str_nat_inj: "str_nat n = str_nat m \<Longrightarrow> n = m"
proof (induction n arbitrary: m rule: str_nat.induct)
  case (1 n)
  show ?case
  proof (cases "n < 10")
    case True
    show ?thesis
    proof (cases "m < 10")
      case mt: True
      from "1.prems" True mt have "digit_char n = digit_char m"
        by (simp add: str_nat.simps [of n] str_nat.simps [of m])
      then show ?thesis using True mt digit_char_inj by blast
    next
      case mf: False
      from "1.prems" True mf have "[digit_char n] = str_nat (m div 10) @ [digit_char (m mod 10)]"
        by (simp add: str_nat.simps [of n] str_nat.simps [of m])
      then have "str_nat (m div 10) = []" by simp
      then show ?thesis using str_nat_not_Nil by blast
    qed
  next
    case False
    show ?thesis
    proof (cases "m < 10")
      case mt: True
      from "1.prems" False mt have "str_nat (n div 10) @ [digit_char (n mod 10)] = [digit_char m]"
        by (simp add: str_nat.simps [of n] str_nat.simps [of m])
      then have "str_nat (n div 10) = []" by simp
      then show ?thesis using str_nat_not_Nil by blast
    next
      case mf: False
      from "1.prems" False mf
      have e: "str_nat (n div 10) @ [digit_char (n mod 10)] = str_nat (m div 10) @ [digit_char (m mod 10)]"
        by (simp add: str_nat.simps [of n] str_nat.simps [of m])
      then have "str_nat (n div 10) = str_nat (m div 10)" by simp
      with "1.IH" False have q: "n div 10 = m div 10" by blast
      from e have "digit_char (n mod 10) = digit_char (m mod 10)" by simp
      then have r: "n mod 10 = m mod 10" using digit_char_inj [of "n mod 10" "m mod 10"] by simp
      from q r show ?thesis by (metis div_mult_mod_eq)
    qed
  qed
qed

lemma numbered_name_inj:
  "numbered_name b j e = numbered_name b k e \<Longrightarrow> j = k"
  by (auto simp: numbered_name_def dest: str_nat_inj split: if_splits)

lemma numbered_name_abs:
  "startswith (numbered_name b j e) ''/'' = startswith (numbered_name b k e) ''/''"
  by (cases b) (auto simp: numbered_name_def startswith_def)

lemma os_path_join_inj:
  "startswith x ''/'' = startswith y ''/'' \<Longrightarrow> os_path_join a x = os_path_join a y \<Longrightarrow> x = y"
  by (auto simp: os_path_join_def split: if_splits)

lemma candidate_inj:
  "os_path_join d (numbered_name b j e) = os_path_join d (numbered_name b k e) \<Longrightarrow> j = k"
  using os_path_join_inj [OF numbered_name_abs] numbered_name_inj by blast

text \<open>
  \<^verbatim>\<open>while os.path.exists(final_path): ...\<close> (lines 579-585): the state of the
  loop is \<open>final_path\<close> and \<open>counter\<close>; the value is the \<open>final_path\<close> it leaves.
\<close>

function resolve_collision ::
    "'c files \<Rightarrow> string \<Rightarrow> string \<Rightarrow> string \<Rightarrow> string \<Rightarrow> nat \<Rightarrow> string" where
  "resolve_collision fs download_dir base_filename final_ext final_path counter =
     (if path_exists fs final_path
      then resolve_collision fs download_dir base_filename final_ext
             (os_path_join download_dir (numbered_name base_filename counter final_ext))
             (counter + 1)
      else final_path)"
  by pat_completeness auto

text \<open>The numbered paths from \<open>c\<close> on that exist.\<close>

definition taken :: "'c files \<Rightarrow> string \<Rightarrow> string \<Rightarrow> string \<Rightarrow> nat \<Rightarrow> string set" where
  "taken fs d b e c =
     {p \<in> fst ` set fs. \<exists>k\<ge>c. p = os_path_join d (numbered_name b k e)}"

lemma taken_step:
  "card (taken fs d b e c) =
   card (taken fs d b e (Suc c)) +
     (if path_exists fs (os_path_join d (numbered_name b c e)) then 1 else 0)"
proof -
  let ?p = "os_path_join d (numbered_name b c e)"
  have fin: "finite (taken fs d b e (Suc c))" by (simp add: taken_def)
  have notin: "?p \<notin> taken fs d b e (Suc c)"
    using candidate_inj by (fastforce simp: taken_def)
  have ex: "path_exists fs ?p \<longleftrightarrow> ?p \<in> fst ` set fs"
    by (simp add: path_exists_def map_of_eq_None_iff)
  have sub1: "taken fs d b e (Suc c) \<subseteq> taken fs d b e c"
  proof
    fix x assume "x \<in> taken fs d b e (Suc c)"
    then obtain k where k: "x \<in> fst ` set fs" "Suc c \<le> k" "x = os_path_join d (numbered_name b k e)"
      unfolding taken_def by blast
    then have "c \<le> k" by simp
    with k show "x \<in> taken fs d b e c" unfolding taken_def by blast
  qed
  have sub2: "taken fs d b e c \<subseteq> insert ?p (taken fs d b e (Suc c))"
  proof
    fix x assume "x \<in> taken fs d b e c"
    then obtain k where k: "x \<in> fst ` set fs" "c \<le> k" "x = os_path_join d (numbered_name b k e)"
      unfolding taken_def by blast
    show "x \<in> insert ?p (taken fs d b e (Suc c))"
    proof (cases "k = c")
      case True
      with k show ?thesis by simp
    next
      case False
      with k have "Suc c \<le> k" by simp
      with k have "x \<in> taken fs d b e (Suc c)" unfolding taken_def by blast
      then show ?thesis by simp
    qed
  qed
  have here: "?p \<in> fst ` set fs \<Longrightarrow> ?p \<in> taken fs d b e c"
    unfolding taken_def by blast
  have nothere: "?p \<notin> fst ` set fs \<Longrightarrow> ?p \<notin> taken fs d b e c"
    unfolding taken_def by blast
  show ?thesis
  proof (cases "path_exists fs ?p")
    case True
    then have "taken fs d b e c = insert ?p (taken fs d b e (Suc c))"
      using sub1 sub2 here ex by blast
    then show ?thesis using True fin notin by simp
  next
    case False
    then have "taken fs d b e c = taken fs d b e (Suc c)"
      using sub1 sub2 nothere ex by blast
    then show ?thesis using False by simp
  qed
qed

termination resolve_collision
proof (relation "measure (\<lambda>(fs, d, b, e, p, c).
        card (taken fs d b e c) + (if path_exists fs p then 1 else 0))")
  show "wf (measure (\<lambda>(fs :: 'a files, d, b, e, p, c).
        card (taken fs d b e c) + (if path_exists fs p then 1 else 0)))"
    by simp
next
  fix fs :: "'a files" and d b e p :: string and c :: nat
  assume "path_exists fs p"
  then show "((fs, d, b, e, os_path_join d (numbered_name b c e), c + 1), fs, d, b, e, p, c)
      \<in> measure (\<lambda>(fs, d, b, e, p, c).
        card (taken fs d b e c) + (if path_exists fs p then 1 else 0))"
    using taken_step [of fs d b e c] by simp
qed

declare resolve_collision.simps [simp del]

text \<open>
  \<^verbatim>\<open>shutil.move(source_path, final_path)\<close>: the content of the source appears at
  the destination, replacing what was there, and the source is gone. A missing source
  raises \<^verbatim>\<open>FileNotFoundError\<close>, an \<^verbatim>\<open>OSError\<close>.
\<close>

definition shutil_move :: "'c files \<Rightarrow> string \<Rightarrow> string \<Rightarrow> exn + 'c files" where
  "shutil_move fs src dst =
     (case map_of fs src of
        None \<Rightarrow> Inl OSError
      | Some c \<Rightarrow> Inr (AList.update dst c (AList.delete src fs)))"

text \<open>
  Lines 574-588 of \<^verbatim>\<open>YTDownloader2025v7.1.py\<close>: from the sanitized
  \<open>final_filename\<close> and \<open>final_ext\<close> of lines 564-573 to the move. The result is the
  path moved to and the file system after the move.
\<close>

definition place_finished ::
    "'c files \<Rightarrow> string \<Rightarrow> string \<Rightarrow> string \<Rightarrow> string \<Rightarrow> exn + (string \<times> 'c files)" where
  "place_finished fs download_dir final_filename final_ext source_path =
     (let final_path = os_path_join download_dir final_filename;
          base_filename = take (length final_filename - (length final_ext + 1)) final_filename;
          final_path' = resolve_collision fs download_dir base_filename final_ext final_path 1
      in case shutil_move fs source_path final_path' of
           Inl e \<Rightarrow> Inl e
         | Inr fs' \<Rightarrow> Inr (final_path', fs'))"

section \<open>Cancellation requests\<close>

text \<open>
  C7, as stated: a second cancel on the same active operation returns false. The
  downloader keeps no record of an earlier acceptance, so the second call during the
  same download is answered like the first.
\<close>

theorem cancel_twice_returns_true:
  "snd (cancel_download
      \<lparr>downloading = True, cancel_requested = False, ydl_instance = True,
       progress_callback = True, events = [], swept = []\<rparr>) = True
   \<and> snd (cancel_download (fst (cancel_download
      \<lparr>downloading = True, cancel_requested = False, ydl_instance = True,
       progress_callback = True, events = [], swept = []\<rparr>))) \<noteq> False"
  by (simp add: cancel_download_def)

text \<open>
  C7, amended: while the download is active, the first cancel is accepted, and a second
  cancel leaves the downloader as the first one left it and returns true again.
\<close>

theorem cancel_again_is_noop_returning_true:
  "downloading w \<Longrightarrow>
     snd (cancel_download w) = True
     \<and> cancel_download (fst (cancel_download w)) = (fst (cancel_download w), True)"
  by (simp add: cancel_download_def)

theorem cancel_again_is_noop_returning_true_witness:
  "downloading \<lparr>downloading = True, cancel_requested = False, ydl_instance = True,
       progress_callback = True, events = [], swept = []\<rparr>
   \<and> cancel_download (fst (cancel_download
        \<lparr>downloading = True, cancel_requested = False, ydl_instance = True,
         progress_callback = True, events = [], swept = []\<rparr>))
     = (\<lparr>downloading = True, cancel_requested = True, ydl_instance = True,
         progress_callback = True, events = [], swept = []\<rparr>, True)"
  using cancel_again_is_noop_returning_true
    [of "\<lparr>downloading = True, cancel_requested = False, ydl_instance = True,
         progress_callback = True, events = [], swept = []\<rparr>"]
  by (simp add: cancel_download_def)

text \<open>
  C8, as stated: a cancel that is not meant for the active operation returns false and
  does not change its events. \<^verbatim>\<open>cancel_download\<close> takes no handle. Here a first
  download has run to its end and a second one is under way (its extraction is
  running) when the cancel arrives: the call returns true, and the second download
  ends with \<^verbatim>\<open>'cancelled'\<close> where it would have ended with \<^verbatim>\<open>'complete'\<close>.
\<close>

theorem cancel_hits_the_next_download:
  "snd (cancel_download
     ((fst (download_video
         \<lparr>ydl_open = None, extract_info = Inr (Some ''a''), cancel_before_download = False,
          during_download = [], download_end = None\<rparr> ''/d''
         \<lparr>downloading = False, cancel_requested = False, ydl_instance = False,
          progress_callback = True, events = [], swept = []\<rparr>))
      \<lparr>downloading := True, cancel_requested := False\<rparr>)) = True
   \<and> events (fst (download_video
        \<lparr>ydl_open = None, extract_info = Inr (Some ''b''), cancel_before_download = True,
         during_download = [], download_end = None\<rparr> ''/d''
        (fst (download_video
          \<lparr>ydl_open = None, extract_info = Inr (Some ''a''), cancel_before_download = False,
           during_download = [], download_end = None\<rparr> ''/d''
          \<lparr>downloading = False, cancel_requested = False, ydl_instance = False,
           progress_callback = True, events = [], swept = []\<rparr>))))
     = [\<lparr>percent = 100, pstatus = SComplete\<rparr>, \<lparr>percent = 0, pstatus = SCancelled\<rparr>]
   \<and> events (fst (download_video
        \<lparr>ydl_open = None, extract_info = Inr (Some ''b''), cancel_before_download = False,
         during_download = [], download_end = None\<rparr> ''/d''
        (fst (download_video
          \<lparr>ydl_open = None, extract_info = Inr (Some ''a''), cancel_before_download = False,
           during_download = [], download_end = None\<rparr> ''/d''
          \<lparr>downloading = False, cancel_requested = False, ydl_instance = False,
           progress_callback = True, events = [], swept = []\<rparr>))))
     = [\<lparr>percent = 100, pstatus = SComplete\<rparr>, \<lparr>percent = 100, pstatus = SComplete\<rparr>]"
  by (simp add: download_video_def try_block_def cancel_download_def emit_def sweep_def)

text \<open>
  C8, amended: when no operation is active, which is the case before any download and
  again once \<^verbatim>\<open>download_video\<close> has returned, cancel returns false and changes
  nothing.
\<close>

theorem cancel_when_idle:
  "(\<not> downloading w \<longrightarrow> cancel_download w = (w, False))
   \<and> cancel_download (fst (download_video env download_dir w))
       = (fst (download_video env download_dir w), False)"
  by (simp add: cancel_download_def download_video_def split: prod.splits)

theorem cancel_when_idle_witness:
  "\<not> downloading \<lparr>downloading = False, cancel_requested = False, ydl_instance = False,
       progress_callback = True, events = [], swept = []\<rparr>
   \<and> cancel_download \<lparr>downloading = False, cancel_requested = False, ydl_instance = False,
       progress_callback = True, events = [], swept = []\<rparr>
     = (\<lparr>downloading = False, cancel_requested = False, ydl_instance = False,
       progress_callback = True, events = [], swept = []\<rparr>, False)"
  using cancel_when_idle
    [of "\<lparr>downloading = False, cancel_requested = False, ydl_instance = False,
       progress_callback = True, events = [], swept = []\<rparr>"]
  by simp

section \<open>Validation before a download thread is started\<close>

text \<open>
  C6: when the destination directory does not exist or is not writable,
  \<^verbatim>\<open>download_video\<close> of the window returns after a message box, with the window
  unchanged: no download thread (and no fetch thread) has been started, so no progress
  event can follow from this call. The message is the directory error whenever the URL
  has passed its own two checks, which come first.
\<close>

theorem invalid_directory_starts_nothing:
  "\<not> validate_directory os download_dir \<Longrightarrow>
     (\<exists>m. app_download_video os url download_dir a = (a, Some m)
        \<and> (m = EnterUrl \<or> m = InvalidUrl \<or> m = InvalidDirectory)
        \<and> (url \<noteq> [] \<and> is_valid_youtube_url url \<longrightarrow> m = InvalidDirectory))
     \<and> download_threads (fst (app_download_video os url download_dir a)) = download_threads a"
  by (simp add: app_download_video_def)

theorem invalid_directory_starts_nothing_witness:
  "\<not> validate_directory \<lparr>isdir = (\<lambda>p. False), writable = (\<lambda>p. True), ffmpeg_on_path = True\<rparr>
       ''/tmp/out''
   \<and> ''https://youtu.be/abc'' \<noteq> [] \<and> is_valid_youtube_url ''https://youtu.be/abc''
   \<and> app_download_video \<lparr>isdir = (\<lambda>p. False), writable = (\<lambda>p. True), ffmpeg_on_path = True\<rparr>
        ''https://youtu.be/abc'' ''/tmp/out''
        \<lparr>download_in_progress = False, video_info = True, download_button = True,
         fetch_button = True, cancel_button = False, download_threads = 0, fetch_threads = 0\<rparr>
     = (\<lparr>download_in_progress = False, video_info = True, download_button = True,
         fetch_button = True, cancel_button = False, download_threads = 0, fetch_threads = 0\<rparr>,
        Some InvalidDirectory)"
  using invalid_directory_starts_nothing
    [of "\<lparr>isdir = (\<lambda>p. False), writable = (\<lambda>p. True), ffmpeg_on_path = True\<rparr>"
        "''/tmp/out''" "''https://youtu.be/abc''"
        "\<lparr>download_in_progress = False, video_info = True, download_button = True,
         fetch_button = True, cancel_button = False, download_threads = 0, fetch_threads = 0\<rparr>"]
  by (auto simp add: validate_directory_def is_valid_youtube_url_def url_from_host_def
        url_rest_ok_def startswith_def)

section \<open>Starting while a download is in progress\<close>

text \<open>
  C3, as stated: a start made while an operation is active fails with a busy error and
  starts no worker. \<^verbatim>\<open>download_video\<close> of the window never reads
  \<^verbatim>\<open>download_in_progress\<close>: with a download in progress and valid inputs it shows no
  message and starts a second download thread.
\<close>

theorem start_while_active_spawns_thread:
  "app_download_video \<lparr>isdir = (\<lambda>p. True), writable = (\<lambda>p. True), ffmpeg_on_path = True\<rparr>
     ''https://youtu.be/abc'' ''/tmp/out''
     \<lparr>download_in_progress = True, video_info = True, download_button = False,
      fetch_button = False, cancel_button = True, download_threads = 1, fetch_threads = 0\<rparr>
   = (\<lparr>download_in_progress = True, video_info = True, download_button = False,
      fetch_button = False, cancel_button = True, download_threads = 2, fetch_threads = 0\<rparr>,
     None)"
  by (simp add: app_download_video_def validate_directory_def is_ffmpeg_installed_def
        is_valid_youtube_url_def url_from_host_def url_rest_ok_def startswith_def)

text \<open>
  C3, amended: the outcome of a start does not depend on whether a download is in
  progress. The same message is shown either way, and when none is shown one more
  download thread has been started and the download button has been disabled, which
  is the only guard against a second start.
\<close>

theorem start_ignores_progress_flag:
  "snd (app_download_video os url download_dir (a\<lparr>download_in_progress := True\<rparr>))
     = snd (app_download_video os url download_dir a)
   \<and> (snd (app_download_video os url download_dir a) = None \<longrightarrow>
        download_threads (fst (app_download_video os url download_dir
            (a\<lparr>download_in_progress := True\<rparr>))) = download_threads a + 1
        \<and> \<not> download_button (fst (app_download_video os url download_dir
            (a\<lparr>download_in_progress := True\<rparr>))))"
  by (simp add: app_download_video_def fetch_video_info_def)

theorem start_ignores_progress_flag_witness:
  "snd (app_download_video \<lparr>isdir = (\<lambda>p. True), writable = (\<lambda>p. True), ffmpeg_on_path = True\<rparr>
     ''https://youtu.be/abc'' ''/tmp/out''
     \<lparr>download_in_progress = False, video_info = True, download_button = True,
      fetch_button = True, cancel_button = False, download_threads = 0, fetch_threads = 0\<rparr>) = None
   \<and> download_threads (fst (app_download_video
       \<lparr>isdir = (\<lambda>p. True), writable = (\<lambda>p. True), ffmpeg_on_path = True\<rparr>
       ''https://youtu.be/abc'' ''/tmp/out''
       (\<lparr>download_in_progress = False, video_info = True, download_button = True,
         fetch_button = True, cancel_button = False, download_threads = 0, fetch_threads = 0\<rparr>
        \<lparr>download_in_progress := True\<rparr>))) = 1"
  using start_ignores_progress_flag
    [of "\<lparr>isdir = (\<lambda>p. True), writable = (\<lambda>p. True), ffmpeg_on_path = True\<rparr>"
        "''https://youtu.be/abc''" "''/tmp/out''"
        "\<lparr>download_in_progress = False, video_info = True, download_button = True,
         fetch_button = True, cancel_button = False, download_threads = 0, fetch_threads = 0\<rparr>"]
  by (simp add: app_download_video_def validate_directory_def is_ffmpeg_installed_def
        is_valid_youtube_url_def url_from_host_def url_rest_ok_def startswith_def)

section \<open>Progress with an unknown total\<close>

text \<open>
  In \<^verbatim>\<open>YTDownloader2025v7.1.py\<close> nothing sets \<^verbatim>\<open>self.downloading\<close> after
  \<^verbatim>\<open>__init__\<close> has cleared it, \<^verbatim>\<open>cancel_download\<close> (lines 328-339, the same
  code as above) sets \<^verbatim>\<open>cancel_requested\<close> only while it is set, and line 495
  registers \<^verbatim>\<open>update_progress\<close> as the hook. In every state that file reaches,
  \<^verbatim>\<open>progress_hook\<close> therefore returns at its guard: its placeholder of 50 is never
  passed on.
\<close>

lemma progress_hook_v71_idle:
  "\<not> downloading w \<Longrightarrow> \<not> cancel_requested w \<Longrightarrow>
     progress_hook_v71 w d = Inr w \<and> cancel_download w = (w, False)"
  by (simp add: progress_hook_v71_def cancel_download_def)

text \<open>
  C5, as stated: with an unknown total the emitted event carries no numeric percent.
  With ten bytes downloaded and no total, the hook of \<^verbatim>\<open>YTDownloader2025.py\<close>
  passes the number 0 to its callback, and a download of the V7 file whose library
  makes that one hook call emits a \<^verbatim>\<open>'downloading'\<close> event with the percent 0
  before its \<^verbatim>\<open>'complete'\<close>.
\<close>

theorem unknown_total_reports_zero:
  "progress_hook_2025
     \<lparr>status = Downloading, total_bytes = None, total_bytes_estimate = None,
      downloaded_bytes = Some 10\<rparr> = Inr [0]
   \<and> events (fst (download_video
      \<lparr>ydl_open = None, extract_info = Inr (Some ''a''), cancel_before_download = False,
       during_download = [Hook \<lparr>status = Downloading, total_bytes = None,
          total_bytes_estimate = None, downloaded_bytes = Some 10\<rparr>],
       download_end = None\<rparr> ''/d''
      \<lparr>downloading = False, cancel_requested = False, ydl_instance = False,
       progress_callback = True, events = [], swept = []\<rparr>))
     = [\<lparr>percent = 0, pstatus = SDownloading\<rparr>, \<lparr>percent = 100, pstatus = SComplete\<rparr>]"
  by (simp add: progress_hook_2025_def download_video_def try_block_def progress_hook_def
        py_or_def truthy_def emit_def sweep_def)

text \<open>
  C5, amended: for a \<^verbatim>\<open>'downloading'\<close> callback whose total is unknown (neither
  \<^verbatim>\<open>total_bytes\<close> nor \<^verbatim>\<open>total_bytes_estimate\<close> is a non-zero number), the hook
  of \<^verbatim>\<open>YTDownloader2025.py\<close> reports the number 0, and the hook of the V7 file,
  during a download that has not been cancelled and has a callback, emits one
  \<^verbatim>\<open>'downloading'\<close> event whose percent is 0.
\<close>

theorem unknown_total_percent:
  "status d = Downloading \<Longrightarrow> \<not> truthy (total_bytes d) \<Longrightarrow>
   \<not> truthy (total_bytes_estimate d) \<Longrightarrow>
     progress_hook_2025 d = Inr [0]
     \<and> (downloading w \<and> \<not> cancel_requested w \<and> progress_callback w \<longrightarrow>
          progress_hook w d
            = Inr (w\<lparr>events := events w @ [\<lparr>percent = 0, pstatus = SDownloading\<rparr>]\<rparr>))"
  by (cases "total_bytes d"; cases "total_bytes_estimate d"; cases "downloaded_bytes d")
     (auto simp add: progress_hook_def progress_hook_2025_def py_or_def truthy_def emit_def)

theorem unknown_total_percent_witness:
  "status \<lparr>status = Downloading, total_bytes = None, total_bytes_estimate = None,
      downloaded_bytes = Some 10\<rparr> = Downloading
   \<and> \<not> truthy (total_bytes \<lparr>status = Downloading, total_bytes = None,
      total_bytes_estimate = None, downloaded_bytes = Some 10\<rparr>)
   \<and> \<not> truthy (total_bytes_estimate \<lparr>status = Downloading, total_bytes = None,
      total_bytes_estimate = None, downloaded_bytes = Some 10\<rparr>)
   \<and> progress_hook_2025 \<lparr>status = Downloading, total_bytes = None,
      total_bytes_estimate = None, downloaded_bytes = Some 10\<rparr> = Inr [0]
   \<and> download_video
      \<lparr>ydl_open = None, extract_info = Inr (Some ''a''), cancel_before_download = False,
       during_download = [Hook \<lparr>status = Downloading, total_bytes = None,
          total_bytes_estimate = None, downloaded_bytes = Some 10\<rparr>],
       download_end = None\<rparr> ''/d''
      \<lparr>downloading = False, cancel_requested = False, ydl_instance = False,
       progress_callback = True, events = [], swept = []\<rparr>
     = (\<lparr>downloading = False, cancel_requested = False, ydl_instance = False,
         progress_callback = True,
         events = [\<lparr>percent = 0, pstatus = SDownloading\<rparr>,
                   \<lparr>percent = 100, pstatus = SComplete\<rparr>],
         swept = [''/d'']\<rparr>, ''a'', True)"
proof -
  let ?d = "\<lparr>status = Downloading, total_bytes = None, total_bytes_estimate = None,
      downloaded_bytes = Some 10\<rparr>"
  let ?w = "\<lparr>downloading = True, cancel_requested = False, ydl_instance = True,
      progress_callback = True, events = [], swept = []\<rparr>"
  have h: "status ?d = Downloading" "\<not> truthy (total_bytes ?d)"
    "\<not> truthy (total_bytes_estimate ?d)"
    by (simp_all add: truthy_def)
  from unknown_total_percent [OF h, of ?w]
  have old: "progress_hook_2025 ?d = Inr [0]"
    and hook: "progress_hook ?w ?d
      = Inr \<lparr>downloading = True, cancel_requested = False, ydl_instance = True,
          progress_callback = True,
          events = [\<lparr>percent = 0, pstatus = SDownloading\<rparr>], swept = []\<rparr>"
    by simp_all
  show ?thesis
    using h old by (simp add: download_video_def try_block_def hook emit_def sweep_def)
qed

section \<open>The sweep of temporary files\<close>

lemma map_of_cleanup_loop:
  "map_of (cleanup_loop rm names fs) n
     = (if n \<in> set names \<and> is_temp n \<and> rm n then None else map_of fs n)"
proof (induction names arbitrary: fs)
  case Nil
  show ?case by simp
next
  case (Cons f rest)
  show ?case by (auto simp add: Cons.IH delete_conv)
qed

lemma progress_hook_swept: "progress_hook w d = Inr w' \<Longrightarrow> swept w' = swept w"
  by (auto simp add: progress_hook_def emit_def split: if_splits hook_status.splits sum.splits)

lemma run_download_swept: "run_download w steps fin = (w', r) \<Longrightarrow> swept w' = swept w"
proof (induction steps arbitrary: w)
  case Nil
  then show ?case by simp
next
  case (Cons s steps)
  show ?case
  proof (cases s)
    case CancelClick
    with Cons.prems have "run_download (fst (cancel_download w)) steps fin = (w', r)" by simp
    from Cons.IH [OF this] show ?thesis by (simp add: cancel_download_def)
  next
    case (Hook d)
    show ?thesis
    proof (cases "progress_hook w d")
      case (Inl e)
      with Hook Cons.prems show ?thesis by simp
    next
      case (Inr w1)
      with Hook Cons.prems have "run_download w1 steps fin = (w', r)" by simp
      from Cons.IH [OF this] progress_hook_swept [OF Inr] show ?thesis by simp
    qed
  qed
qed

lemma try_block_swept:
  assumes "try_block env download_dir w = (w1, title, raised)"
  shows "swept w1 = swept w @ (if raised = None then [download_dir] else [])"
proof (cases "ydl_open env")
  case (Some e)
  with assms have "w1 = w" and "raised = Some e" by (simp_all add: try_block_def)
  then show ?thesis by simp
next
  case None
  note op = None
  show ?thesis
  proof (cases "extract_info env")
    case (Inl e)
    with assms op have "w1 = w\<lparr>ydl_instance := True\<rparr>" and "raised = Some e"
      by (simp_all add: try_block_def)
    then show ?thesis by simp
  next
    case (Inr t)
    let ?w1 = "w\<lparr>ydl_instance := True\<rparr>"
    let ?w2 = "if cancel_before_download env then fst (cancel_download ?w1) else ?w1"
    have sw2: "swept ?w2 = swept w" by (simp add: cancel_download_def)
    show ?thesis
    proof (cases "cancel_requested ?w2")
      case True
      with assms op Inr have "w1 = ?w2" "raised = Some DownloadCancelledError"
        by (simp_all add: try_block_def Let_def)
      with sw2 show ?thesis by simp
    next
      case False
      obtain w3 r where run: "run_download ?w2 (during_download env) (download_end env) = (w3, r)"
        by (cases "run_download ?w2 (during_download env) (download_end env)")
      have sw3: "swept w3 = swept w" using run_download_swept [OF run] sw2 by simp
      show ?thesis
      proof (cases r)
        case None
        with assms op Inr False run
        have "w1 = emit \<lparr>percent = 100, pstatus = SComplete\<rparr> (sweep download_dir w3)"
          "raised = None"
          by (simp_all add: try_block_def Let_def)
        with sw3 show ?thesis by (simp add: emit_def sweep_def)
      next
        case (Some e)
        with assms op Inr False run have "w1 = w3" "raised = Some e"
          by (simp_all add: try_block_def Let_def)
        with sw3 show ?thesis by simp
      qed
    qed
  qed
qed

lemma progress_hook_callback:
  "progress_hook w d = Inr w' \<Longrightarrow> progress_callback w' = progress_callback w"
  by (auto simp add: progress_hook_def emit_def split: if_splits hook_status.splits sum.splits)

lemma run_download_callback:
  "run_download w steps fin = (w', r) \<Longrightarrow> progress_callback w' = progress_callback w"
proof (induction steps arbitrary: w)
  case Nil
  then show ?case by simp
next
  case (Cons s steps)
  show ?case
  proof (cases s)
    case CancelClick
    with Cons.prems have "run_download (fst (cancel_download w)) steps fin = (w', r)" by simp
    from Cons.IH [OF this] show ?thesis by (simp add: cancel_download_def)
  next
    case (Hook d)
    show ?thesis
    proof (cases "progress_hook w d")
      case (Inl e)
      with Hook Cons.prems show ?thesis by simp
    next
      case (Inr w1)
      with Hook Cons.prems have "run_download w1 steps fin = (w', r)" by simp
      from Cons.IH [OF this] progress_hook_callback [OF Inr] show ?thesis by simp
    qed
  qed
qed

lemma try_block_last:
  assumes cb: "progress_callback w"
    and tb: "try_block env download_dir w = (w1, title, raised)"
  shows "progress_callback w1
     \<and> (raised = None \<longrightarrow>
          events w1 \<noteq> [] \<and> last (events w1) = \<lparr>percent = 100, pstatus = SComplete\<rparr>)"
proof (cases "ydl_open env")
  case (Some e)
  with tb have "w1 = w" and "raised = Some e" by (simp_all add: try_block_def)
  with cb show ?thesis by simp
next
  case None
  note op = None
  show ?thesis
  proof (cases "extract_info env")
    case (Inl e)
    with tb op have "w1 = w\<lparr>ydl_instance := True\<rparr>" and "raised = Some e"
      by (simp_all add: try_block_def)
    with cb show ?thesis by simp
  next
    case (Inr t)
    let ?w1 = "w\<lparr>ydl_instance := True\<rparr>"
    let ?w2 = "if cancel_before_download env then fst (cancel_download ?w1) else ?w1"
    have cb2: "progress_callback ?w2" using cb by (simp add: cancel_download_def)
    show ?thesis
    proof (cases "cancel_requested ?w2")
      case True
      with tb op Inr have "w1 = ?w2" "raised = Some DownloadCancelledError"
        by (simp_all add: try_block_def Let_def)
      with cb2 show ?thesis by simp
    next
      case False
      obtain w3 r where run: "run_download ?w2 (during_download env) (download_end env) = (w3, r)"
        by (cases "run_download ?w2 (during_download env) (download_end env)")
      have cb3: "progress_callback w3" using run_download_callback [OF run] cb2 by simp
      show ?thesis
      proof (cases r)
        case None
        with tb op Inr False run
        have "w1 = emit \<lparr>percent = 100, pstatus = SComplete\<rparr> (sweep download_dir w3)"
          "raised = None"
          by (simp_all add: try_block_def Let_def)
        with cb3 show ?thesis by (simp add: emit_def sweep_def)
      next
        case (Some e)
        with tb op Inr False run have "w1 = w3" "raised = Some e"
          by (simp_all add: try_block_def Let_def)
        with cb3 show ?thesis by simp
      qed
    qed
  qed
qed

lemma download_video_sweeps:
  "(snd (snd (download_video env download_dir w)) \<longrightarrow>
       swept (fst (download_video env download_dir w)) = swept w @ [download_dir])
   \<and> (progress_callback w \<longrightarrow>
       events (fst (download_video env download_dir w)) \<noteq> []
       \<and> swept (fst (download_video env download_dir w))
           = swept w @
             (if pstatus (last (events (fst (download_video env download_dir w)))) = SError
              then [] else [download_dir]))"
proof -
  let ?w0 = "w\<lparr>downloading := True, cancel_requested := False\<rparr>"
  obtain w1 title raised where tb: "try_block env download_dir ?w0 = (w1, title, raised)"
    by (cases "try_block env download_dir ?w0") auto
  have sw: "swept w1 = swept w @ (if raised = None then [download_dir] else [])"
    using try_block_swept [OF tb] by simp
  show ?thesis
  proof (cases raised)
    case None
    have succ: "swept (fst (download_video env download_dir w)) = swept w @ [download_dir]"
      using None tb sw by (simp add: download_video_def)
    have "events (fst (download_video env download_dir w)) \<noteq> []
       \<and> pstatus (last (events (fst (download_video env download_dir w)))) \<noteq> SError"
      if "progress_callback w"
    proof -
      have "progress_callback ?w0" using that by simp
      from try_block_last [OF this tb] None
      have "events w1 \<noteq> []" "last (events w1) = \<lparr>percent = 100, pstatus = SComplete\<rparr>"
        by simp_all
      then show ?thesis using None tb by (simp add: download_video_def)
    qed
    with succ show ?thesis by simp
  next
    case (Some e)
    have fail: "\<not> snd (snd (download_video env download_dir w))"
      using Some tb by (cases e) (simp_all add: download_video_def)
    have "events (fst (download_video env download_dir w)) \<noteq> []
       \<and> swept (fst (download_video env download_dir w))
           = swept w @
             (if pstatus (last (events (fst (download_video env download_dir w)))) = SError
              then [] else [download_dir])"
      if "progress_callback w"
    proof -
      have "progress_callback ?w0" using that by simp
      from try_block_last [OF this tb] have cb1: "progress_callback w1" by simp
      show ?thesis
        using Some tb sw cb1
        by (cases e) (simp_all add: download_video_def emit_def sweep_def)
    qed
    with fail show ?thesis by simp
  qed
qed

text \<open>
  C10, as stated: the sweep deletes every file of the directory whose name ends with
  one of the suffixes. When \<^verbatim>\<open>os.remove\<close> raises \<^verbatim>\<open>OSError\<close> on such an entry
  (a file that another program holds open, a subdirectory), the handler of lines
  705-706 logs a warning and the entry is still there afterwards.
\<close>

theorem cleanup_keeps_entry_that_remove_refuses:
  "is_temp ''clip.webm''
   \<and> cleanup_temp_files (\<lambda>n. False) (Some [(''clip.webm'', 1::nat)])
       = Some [(''clip.webm'', 1)]"
  by (simp add: cleanup_temp_files_def is_temp_def temp_extensions_def endswith_def)

text \<open>
  C10, amended: \<^verbatim>\<open>_cleanup_temp_files\<close>, given a directory it can list, leaves a
  directory in which every entry whose name ends with one of the eight suffixes and
  on which \<^verbatim>\<open>os.remove\<close> succeeds is gone, whoever made it; every entry with
  another name is as before, and so is every entry on which \<^verbatim>\<open>os.remove\<close> fails.
  A directory that cannot be listed is left alone. \<^verbatim>\<open>download_video\<close> calls it on
  the destination directory itself, once: whenever it returns success, and, with a
  callback registered, exactly when its last event is \<^verbatim>\<open>'complete'\<close> or
  \<^verbatim>\<open>'cancelled'\<close> and not \<^verbatim>\<open>'error'\<close>.
\<close>

theorem cleanup_removes_exactly_temp_files:
  "(\<exists>fs'. cleanup_temp_files rm (Some fs) = Some fs'
      \<and> (\<forall>n. is_temp n \<and> rm n \<longrightarrow> map_of fs' n = None)
      \<and> (\<forall>n. \<not> is_temp n \<longrightarrow> map_of fs' n = map_of fs n)
      \<and> (\<forall>n. \<not> rm n \<longrightarrow> map_of fs' n = map_of fs n))
   \<and> cleanup_temp_files rm None = None
   \<and> (snd (snd (download_video env download_dir w)) \<longrightarrow>
       swept (fst (download_video env download_dir w)) = swept w @ [download_dir])
   \<and> (progress_callback w \<longrightarrow>
       events (fst (download_video env download_dir w)) \<noteq> []
       \<and> swept (fst (download_video env download_dir w))
           = swept w @
             (if pstatus (last (events (fst (download_video env download_dir w)))) = SError
              then [] else [download_dir]))"
proof -
  let ?fs' = "cleanup_loop rm (map fst fs) fs"
  have gone: "map_of ?fs' n = None" if "is_temp n \<and> rm n" for n
  proof (cases "n \<in> set (map fst fs)")
    case True
    with that show ?thesis by (simp add: map_of_cleanup_loop)
  next
    case False
    then have "map_of fs n = None" by (simp add: map_of_eq_None_iff)
    then show ?thesis by (simp add: map_of_cleanup_loop)
  qed
  have kept: "map_of ?fs' n = map_of fs n" if "\<not> is_temp n \<or> \<not> rm n" for n
    using that by (auto simp add: map_of_cleanup_loop)
  have dir: "\<exists>fs'. cleanup_temp_files rm (Some fs) = Some fs'
      \<and> (\<forall>n. is_temp n \<and> rm n \<longrightarrow> map_of fs' n = None)
      \<and> (\<forall>n. \<not> is_temp n \<longrightarrow> map_of fs' n = map_of fs n)
      \<and> (\<forall>n. \<not> rm n \<longrightarrow> map_of fs' n = map_of fs n)"
    using gone kept by (simp add: cleanup_temp_files_def)
  have none: "cleanup_temp_files rm None = None" by (simp add: cleanup_temp_files_def)
  from dir none download_video_sweeps [of env download_dir w] show ?thesis by blast
qed

theorem cleanup_removes_exactly_temp_files_witness:
  "is_temp ''song.m4a'' \<and> \<not> is_temp ''video.mp4''
   \<and> cleanup_temp_files (\<lambda>n. True)
       (Some [(''a.mp4.part'', 1::nat), (''song.m4a'', 2), (''video.mp4'', 3)])
     = Some [(''video.mp4'', 3)]
   \<and> progress_callback \<lparr>downloading = False, cancel_requested = False, ydl_instance = False,
       progress_callback = True, events = [], swept = []\<rparr>
   \<and> download_video
      \<lparr>ydl_open = None, extract_info = Inr (Some ''a''), cancel_before_download = False,
       during_download = [], download_end = None\<rparr> ''/d''
      \<lparr>downloading = False, cancel_requested = False, ydl_instance = False,
       progress_callback = True, events = [], swept = []\<rparr>
     = (\<lparr>downloading = False, cancel_requested = False, ydl_instance = False,
         progress_callback = True,
         events = [\<lparr>percent = 100, pstatus = SComplete\<rparr>], swept = [''/d'']\<rparr>, ''a'', True)
   \<and> download_video
      \<lparr>ydl_open = None, extract_info = Inr (Some ''a''), cancel_before_download = True,
       during_download = [], download_end = None\<rparr> ''/d''
      \<lparr>downloading = False, cancel_requested = False, ydl_instance = False,
       progress_callback = True, events = [], swept = []\<rparr>
     = (\<lparr>downloading = False, cancel_requested = False, ydl_instance = False,
         progress_callback = True,
         events = [\<lparr>percent = 0, pstatus = SCancelled\<rparr>], swept = [''/d'']\<rparr>, ''a'', False)
   \<and> swept (fst (download_video
      \<lparr>ydl_open = None, extract_info = Inr (Some ''a''), cancel_before_download = False,
       during_download = [], download_end = Some DownloadError\<rparr> ''/d''
      \<lparr>downloading = False, cancel_requested = False, ydl_instance = False,
       progress_callback = True, events = [], swept = []\<rparr>)) = []"
  using cleanup_removes_exactly_temp_files
    [of "\<lambda>n. True" "[(''a.mp4.part'', 1::nat), (''song.m4a'', 2), (''video.mp4'', 3)]"
        "\<lparr>ydl_open = None, extract_info = Inr (Some ''a''), cancel_before_download = False,
          during_download = [], download_end = None\<rparr>" "''/d''"
        "\<lparr>downloading = False, cancel_requested = False, ydl_instance = False,
          progress_callback = True, events = [], swept = []\<rparr>"]
  by (simp add: cleanup_temp_files_def is_temp_def temp_extensions_def endswith_def
        AList.delete_eq download_video_def try_block_def cancel_download_def emit_def
        sweep_def)

section \<open>Name collisions at the destination\<close>

lemma resolve_collision_free:
  "\<not> path_exists fs (resolve_collision fs d b e p c)"
proof (induction fs d b e p c rule: resolve_collision.induct)
  case (1 fs d b e p c)
  show ?case
  proof (cases "path_exists fs p")
    case True
    with "1.IH" show ?thesis by (subst resolve_collision.simps) simp
  next
    case False
    then show ?thesis by (subst resolve_collision.simps) simp
  qed
qed

lemma resolve_collision_numbered:
  "path_exists fs p \<Longrightarrow>
     \<exists>k\<ge>c. resolve_collision fs d b e p c = os_path_join d (numbered_name b k e)
         \<and> (\<forall>j. c \<le> j \<and> j < k \<longrightarrow> path_exists fs (os_path_join d (numbered_name b j e)))"
proof (induction fs d b e p c rule: resolve_collision.induct)
  case (1 fs d b e p c)
  let ?q = "os_path_join d (numbered_name b c e)"
  have step: "resolve_collision fs d b e p c = resolve_collision fs d b e ?q (c + 1)"
    using "1.prems" by (subst resolve_collision.simps) simp
  show ?case
  proof (cases "path_exists fs ?q")
    case True
    from "1.IH" [OF "1.prems" True] obtain k where k: "c + 1 \<le> k"
      "resolve_collision fs d b e ?q (c + 1) = os_path_join d (numbered_name b k e)"
      "\<forall>j. c + 1 \<le> j \<and> j < k \<longrightarrow> path_exists fs (os_path_join d (numbered_name b j e))"
      by blast
    have "\<forall>j. c \<le> j \<and> j < k \<longrightarrow> path_exists fs (os_path_join d (numbered_name b j e))"
    proof (intro allI impI)
      fix j assume j: "c \<le> j \<and> j < k"
      show "path_exists fs (os_path_join d (numbered_name b j e))"
      proof (cases "j = c")
        case True
        then show ?thesis using \<open>path_exists fs ?q\<close> by simp
      next
        case False
        with j have "c + 1 \<le> j \<and> j < k" by simp
        with k(3) show ?thesis by blast
      qed
    qed
    with k step show ?thesis by (intro exI [of _ k]) simp
  next
    case False
    then have "resolve_collision fs d b e ?q (c + 1) = ?q"
      by (subst resolve_collision.simps) simp
    with step show ?thesis by (intro exI [of _ c]) auto
  qed
qed

lemma shutil_move_frame:
  "map_of fs src = Some v \<Longrightarrow> \<not> path_exists fs dst \<Longrightarrow>
     \<exists>fs'. shutil_move fs src dst = Inr fs'
       \<and> map_of fs' dst = Some v
       \<and> map_of fs' src = None
       \<and> (\<forall>p. p \<noteq> src \<and> p \<noteq> dst \<longrightarrow> map_of fs' p = map_of fs p)"
  by (auto simp add: shutil_move_def update_conv delete_conv path_exists_def)

text \<open>
  C9: when the downloaded file exists and the intended destination path is taken, the
  loop ends, the file is moved to a path numbered \<open>k \<ge> 1\<close> whose lower-numbered
  siblings are all taken and which was itself free, and every path that existed before
  (the moved source apart) still holds what it held: nothing is overwritten.
\<close>

theorem move_never_overwrites:
  assumes src: "map_of fs source_path = Some v"
    and clash: "path_exists fs (os_path_join download_dir final_filename)"
  shows "\<exists>k fs'. 1 \<le> k
      \<and> place_finished fs download_dir final_filename final_ext source_path
          = Inr (os_path_join download_dir
                   (numbered_name (take (length final_filename - (length final_ext + 1))
                      final_filename) k final_ext), fs')
      \<and> (\<forall>j. 1 \<le> j \<and> j < k \<longrightarrow> path_exists fs (os_path_join download_dir
                   (numbered_name (take (length final_filename - (length final_ext + 1))
                      final_filename) j final_ext)))
      \<and> \<not> path_exists fs (os_path_join download_dir
                   (numbered_name (take (length final_filename - (length final_ext + 1))
                      final_filename) k final_ext))
      \<and> map_of fs' (os_path_join download_dir
                   (numbered_name (take (length final_filename - (length final_ext + 1))
                      final_filename) k final_ext)) = Some v
      \<and> (\<forall>p. p \<noteq> source_path \<and> path_exists fs p \<longrightarrow> map_of fs' p = map_of fs p)"
proof -
  let ?b = "take (length final_filename - (length final_ext + 1)) final_filename"
  let ?p = "os_path_join download_dir final_filename"
  let ?r = "resolve_collision fs download_dir ?b final_ext ?p 1"
  from resolve_collision_numbered [OF clash, of 1 download_dir ?b final_ext]
  obtain k where k: "1 \<le> k" "?r = os_path_join download_dir (numbered_name ?b k final_ext)"
    "\<forall>j. 1 \<le> j \<and> j < k \<longrightarrow> path_exists fs (os_path_join download_dir (numbered_name ?b j final_ext))"
    by blast
  have free: "\<not> path_exists fs ?r" by (rule resolve_collision_free)
  from shutil_move_frame [OF src free] obtain fs' where fs':
    "shutil_move fs source_path ?r = Inr fs'" "map_of fs' ?r = Some v"
    "\<forall>p. p \<noteq> source_path \<and> p \<noteq> ?r \<longrightarrow> map_of fs' p = map_of fs p"
    by blast
  have pf: "place_finished fs download_dir final_filename final_ext source_path = Inr (?r, fs')"
    using fs'(1) by (simp add: place_finished_def Let_def)
  have keep: "\<forall>p. p \<noteq> source_path \<and> path_exists fs p \<longrightarrow> map_of fs' p = map_of fs p"
    using fs'(3) free by auto
  show ?thesis
    using k free fs'(2) pf keep by (intro exI [of _ k] exI [of _ fs']) simp
qed

theorem move_never_overwrites_witness:
  "map_of [(''/tmp/x/a.mp4'', 7::nat), (''/d/a Video.mp4'', 1),
           (''/d/a Video (1) (Video).mp4'', 2)] ''/tmp/x/a.mp4'' = Some 7
   \<and> path_exists [(''/tmp/x/a.mp4'', 7::nat), (''/d/a Video.mp4'', 1),
           (''/d/a Video (1) (Video).mp4'', 2)] (os_path_join ''/d'' ''a Video.mp4'')
   \<and> (\<exists>k fs'. 1 \<le> k
        \<and> place_finished [(''/tmp/x/a.mp4'', 7::nat), (''/d/a Video.mp4'', 1),
             (''/d/a Video (1) (Video).mp4'', 2)] ''/d'' ''a Video.mp4'' ''mp4'' ''/tmp/x/a.mp4''
          = Inr (os_path_join ''/d''
                   (numbered_name (take (length ''a Video.mp4'' - (length ''mp4'' + 1))
                      ''a Video.mp4'') k ''mp4''), fs'))
   \<and> place_finished [(''/tmp/x/a.mp4'', 7::nat), (''/d/a Video.mp4'', 1),
         (''/d/a Video (1) (Video).mp4'', 2)] ''/d'' ''a Video.mp4'' ''mp4'' ''/tmp/x/a.mp4''
       = Inr (''/d/a Video (2) (Video).mp4'',
              [(''/d/a Video.mp4'', 1), (''/d/a Video (1) (Video).mp4'', 2),
               (''/d/a Video (2) (Video).mp4'', 7)])"
proof -
  let ?fs = "[(''/tmp/x/a.mp4'', 7::nat), (''/d/a Video.mp4'', 1),
              (''/d/a Video (1) (Video).mp4'', 2)]"
  have h1: "map_of ?fs ''/tmp/x/a.mp4'' = Some 7" by simp
  have h2: "path_exists ?fs (os_path_join ''/d'' ''a Video.mp4'')"
    by (simp add: path_exists_def os_path_join_def startswith_def endswith_def)
  have run: "place_finished ?fs ''/d'' ''a Video.mp4'' ''mp4'' ''/tmp/x/a.mp4''
       = Inr (''/d/a Video (2) (Video).mp4'',
              [(''/d/a Video.mp4'', 1), (''/d/a Video (1) (Video).mp4'', 2),
               (''/d/a Video (2) (Video).mp4'', 7)])"
    by code_simp
  from move_never_overwrites [OF h1 h2, of "''mp4''"]
  have ex: "\<exists>k fs'. 1 \<le> k
        \<and> place_finished ?fs ''/d'' ''a Video.mp4'' ''mp4'' ''/tmp/x/a.mp4''
          = Inr (os_path_join ''/d''
                   (numbered_name (take (length ''a Video.mp4'' - (length ''mp4'' + 1))
                      ''a Video.mp4'') k ''mp4''), fs')"
    by blast
  from h1 h2 ex run show ?thesis by blast
qed

section \<open>Terminal events of one download\<close>

lemma emit_events:
  "events (emit e w) = (if progress_callback w then events w @ [e] else events w)"
  "progress_callback (emit e w) = progress_callback w"
  "downloading (emit e w) = downloading w"
  "cancel_requested (emit e w) = cancel_requested w"
  by (simp_all add: emit_def)

lemma progress_hook_quiet:
  assumes "progress_hook w d = Inr w'" and "status d \<noteq> Error"
  shows "\<exists>new. events w' = events w @ new \<and> list_all (\<lambda>e. \<not> terminal e) new
           \<and> progress_callback w' = progress_callback w"
  using assms
  by (auto simp add: progress_hook_def emit_def terminal_def
        split: if_splits hook_status.splits sum.splits)

lemma cancel_download_events:
  "events (fst (cancel_download w)) = events w"
  "progress_callback (fst (cancel_download w)) = progress_callback w"
  by (simp_all add: cancel_download_def)

lemma run_download_quiet:
  "error_free steps \<Longrightarrow> run_download w steps fin = (w', r) \<Longrightarrow>
     \<exists>new. events w' = events w @ new \<and> list_all (\<lambda>e. \<not> terminal e) new
           \<and> progress_callback w' = progress_callback w"
proof (induction steps arbitrary: w)
  case Nil
  then show ?case by simp
next
  case (Cons s steps)
  show ?case
  proof (cases s)
    case CancelClick
    with Cons.prems have ef: "error_free steps"
      and run: "run_download (fst (cancel_download w)) steps fin = (w', r)"
      by (simp_all add: error_free_def)
    from Cons.IH [OF ef run] show ?thesis by (simp add: cancel_download_events)
  next
    case (Hook d)
    with Cons.prems have ef: "error_free steps" and ne: "status d \<noteq> Error"
      by (simp_all add: error_free_def)
    show ?thesis
    proof (cases "progress_hook w d")
      case (Inl e)
      with Hook Cons.prems have "w' = w" by simp
      then show ?thesis by simp
    next
      case (Inr w1)
      with Hook Cons.prems have run: "run_download w1 steps fin = (w', r)" by simp
      from progress_hook_quiet [OF Inr ne] obtain n1 where n1:
        "events w1 = events w @ n1" "list_all (\<lambda>e. \<not> terminal e) n1"
        "progress_callback w1 = progress_callback w" by blast
      from Cons.IH [OF ef run] obtain n2 where n2:
        "events w' = events w1 @ n2" "list_all (\<lambda>e. \<not> terminal e) n2"
        "progress_callback w' = progress_callback w1" by blast
      from n1 n2 show ?thesis by (intro exI [of _ "n1 @ n2"]) simp
    qed
  qed
qed

lemma try_block_quiet:
  assumes cb: "progress_callback w" and ef: "error_free (during_download env)"
    and tb: "try_block env download_dir w = (w1, title, raised)"
  shows "progress_callback w1 \<and>
     (\<exists>new. events w1 = events w @ new @
         (if raised = None then [\<lparr>percent = 100, pstatus = SComplete\<rparr>] else [])
       \<and> list_all (\<lambda>e. \<not> terminal e) new)"
proof (cases "ydl_open env")
  case (Some e)
  with tb have "w1 = w" and "raised = Some e" by (simp_all add: try_block_def)
  with cb show ?thesis by simp
next
  case None
  note op = None
  show ?thesis
  proof (cases "extract_info env")
    case (Inl e)
    with tb cb op show ?thesis by (auto simp add: try_block_def)
  next
    case (Inr t)
    let ?w1 = "w\<lparr>ydl_instance := True\<rparr>"
    let ?w2 = "if cancel_before_download env then fst (cancel_download ?w1) else ?w1"
    have ev2: "events ?w2 = events w" "progress_callback ?w2 = progress_callback w"
      by (simp_all add: cancel_download_def)
    show ?thesis
    proof (cases "cancel_requested ?w2")
      case True
      with tb op Inr have "w1 = ?w2" "raised = Some DownloadCancelledError"
        by (simp_all add: try_block_def Let_def)
      with ev2 cb show ?thesis by simp
    next
      case False
      obtain w3 r where run: "run_download ?w2 (during_download env) (download_end env) = (w3, r)"
        by (cases "run_download ?w2 (during_download env) (download_end env)")
      from run_download_quiet [OF ef run] ev2 obtain new where new:
        "events w3 = events w @ new" "list_all (\<lambda>e. \<not> terminal e) new"
        "progress_callback w3 = progress_callback w" by auto
      show ?thesis
      proof (cases r)
        case None
        with tb op Inr False run
        have "w1 = emit \<lparr>percent = 100, pstatus = SComplete\<rparr> (sweep download_dir w3)"
          "raised = None"
          by (simp_all add: try_block_def Let_def)
        with new cb show ?thesis
          by (intro conjI exI [of _ new]) (simp_all add: emit_def sweep_def)
      next
        case (Some e)
        with tb op Inr False run have "w1 = w3" "raised = Some e"
          by (simp_all add: try_block_def Let_def)
        with new cb show ?thesis by (intro conjI exI [of _ new]) simp_all
      qed
    qed
  qed
qed

text \<open>
  C1, amended: when a progress callback is registered and the library makes no hook call
  with the status \<^verbatim>\<open>'error'\<close>, the events that one call of
  \<^verbatim>\<open>download_video\<close> adds are some non-terminal events followed by exactly one
  terminal event, which is the last. It is \<^verbatim>\<open>'complete'\<close> when the \<^verbatim>\<open>try\<close> block
  raised nothing, \<^verbatim>\<open>'cancelled'\<close> when it raised the cancellation, and
  \<^verbatim>\<open>'error'\<close> for every other exception, the unclassified ones included.
\<close>

theorem one_terminal_event_last:
  assumes cb: "progress_callback w" and ef: "error_free (during_download env)"
  shows "\<exists>pre t. events (fst (download_video env download_dir w)) = events w @ pre @ [t]
      \<and> list_all (\<lambda>e. \<not> terminal e) pre
      \<and> terminal t
      \<and> pstatus t =
          (case snd (snd (try_block env download_dir
                   (w\<lparr>downloading := True, cancel_requested := False\<rparr>))) of
             None \<Rightarrow> SComplete
           | Some DownloadCancelledError \<Rightarrow> SCancelled
           | Some _ \<Rightarrow> SError)"
proof -
  let ?w0 = "w\<lparr>downloading := True, cancel_requested := False\<rparr>"
  obtain w1 title raised where tb: "try_block env download_dir ?w0 = (w1, title, raised)"
    by (cases "try_block env download_dir ?w0") auto
  have cb0: "progress_callback ?w0" using cb by simp
  from try_block_quiet [OF cb0 ef tb] obtain new where new:
    "progress_callback w1"
    "events w1 = events w @ new @
         (if raised = None then [\<lparr>percent = 100, pstatus = SComplete\<rparr>] else [])"
    "list_all (\<lambda>e. \<not> terminal e) new" by auto
  show ?thesis
  proof (cases raised)
    case None
    with tb new show ?thesis
      by (intro exI [of _ new] exI [of _ "\<lparr>percent = 100, pstatus = SComplete\<rparr>"])
         (simp add: download_video_def terminal_def)
  next
    case (Some e)
    show ?thesis
    proof (cases "e = DownloadCancelledError")
      case True
      with Some tb new show ?thesis
        by (intro exI [of _ new] exI [of _ "\<lparr>percent = 0, pstatus = SCancelled\<rparr>"])
           (simp add: download_video_def terminal_def emit_def sweep_def)
    next
      case False
      with Some tb new show ?thesis
        by (intro exI [of _ new] exI [of _ "\<lparr>percent = 0, pstatus = SError\<rparr>"])
           (cases e; simp add: download_video_def terminal_def emit_def sweep_def)
    qed
  qed
qed

theorem one_terminal_event_last_witness:
  "progress_callback \<lparr>downloading = False, cancel_requested = False, ydl_instance = False,
       progress_callback = True, events = [], swept = []\<rparr>
   \<and> error_free [Hook \<lparr>status = Finished, total_bytes = None,
          total_bytes_estimate = None, downloaded_bytes = None\<rparr>]
   \<and> events (fst (download_video
      \<lparr>ydl_open = None, extract_info = Inr (Some ''a''), cancel_before_download = False,
       during_download = [Hook \<lparr>status = Finished, total_bytes = None,
          total_bytes_estimate = None, downloaded_bytes = None\<rparr>],
       download_end = Some OtherException\<rparr> ''/d''
      \<lparr>downloading = False, cancel_requested = False, ydl_instance = False,
       progress_callback = True, events = [], swept = []\<rparr>))
     = [\<lparr>percent = 95, pstatus = SConverting\<rparr>, \<lparr>percent = 0, pstatus = SError\<rparr>]"
  using one_terminal_event_last
    [of "\<lparr>downloading = False, cancel_requested = False, ydl_instance = False,
          progress_callback = True, events = [], swept = []\<rparr>"
        "\<lparr>ydl_open = None, extract_info = Inr (Some ''a''), cancel_before_download = False,
          during_download = [Hook \<lparr>status = Finished, total_bytes = None,
            total_bytes_estimate = None, downloaded_bytes = None\<rparr>],
          download_end = Some OtherException\<rparr>" "''/d''"]
  by (simp add: error_free_def download_video_def try_block_def progress_hook_def emit_def
        sweep_def)

text \<open>
  C1, as stated: exactly one terminal event per operation, and none after it. A hook
  call with the status \<^verbatim>\<open>'error'\<close> makes the hook emit an \<^verbatim>\<open>'error'\<close> event
  while the download goes on: when the library then raises, the handler emits a second
  one; when the library returns, \<^verbatim>\<open>'complete'\<close> follows the \<^verbatim>\<open>'error'\<close>.
\<close>

theorem error_hook_gives_two_terminal_events:
  "events (fst (download_video
      \<lparr>ydl_open = None, extract_info = Inr (Some ''a''), cancel_before_download = False,
       during_download = [Hook \<lparr>status = Error, total_bytes = None,
          total_bytes_estimate = None, downloaded_bytes = None\<rparr>],
       download_end = Some DownloadError\<rparr> ''/d''
      \<lparr>downloading = False, cancel_requested = False, ydl_instance = False,
       progress_callback = True, events = [], swept = []\<rparr>))
   = [\<lparr>percent = 0, pstatus = SError\<rparr>, \<lparr>percent = 0, pstatus = SError\<rparr>]
   \<and> events (fst (download_video
      \<lparr>ydl_open = None, extract_info = Inr (Some ''a''), cancel_before_download = False,
       during_download = [Hook \<lparr>status = Error, total_bytes = None,
          total_bytes_estimate = None, downloaded_bytes = None\<rparr>],
       download_end = None\<rparr> ''/d''
      \<lparr>downloading = False, cancel_requested = False, ydl_instance = False,
       progress_callback = True, events = [], swept = []\<rparr>))
   = [\<lparr>percent = 0, pstatus = SError\<rparr>, \<lparr>percent = 100, pstatus = SComplete\<rparr>]"
  by (simp add: download_video_def try_block_def progress_hook_def emit_def sweep_def)

section \<open>Double-precision rounding\<close>

lemma rhe_of_int: "rhe (of_int n) = n"
  by (simp add: rhe_def)

lemma rhe_bounds: "\<lfloor>x\<rfloor> \<le> rhe x \<and> rhe x \<le> \<lfloor>x\<rfloor> + 1"
  by (simp add: rhe_def Let_def)

lemma rhe_mono: "x \<le> y \<Longrightarrow> rhe x \<le> rhe y"
proof -
  assume xy: "x \<le> y"
  have fg: "\<lfloor>x\<rfloor> \<le> \<lfloor>y\<rfloor>" using xy by (rule floor_mono)
  show ?thesis
  proof (cases "\<lfloor>x\<rfloor> < \<lfloor>y\<rfloor>")
    case True
    have "rhe x \<le> \<lfloor>x\<rfloor> + 1" using rhe_bounds by blast
    also have "\<dots> \<le> \<lfloor>y\<rfloor>" using True by simp
    also have "\<dots> \<le> rhe y" using rhe_bounds by blast
    finally show ?thesis .
  next
    case False
    with fg have eq: "\<lfloor>y\<rfloor> = \<lfloor>x\<rfloor>" by simp
    have r: "x - of_int \<lfloor>x\<rfloor> \<le> y - of_int \<lfloor>x\<rfloor>" using xy by simp
    show ?thesis
      using r unfolding rhe_def Let_def eq
      by (auto split: if_splits)
  qed
qed

lemma rhe_nonneg: "0 \<le> x \<Longrightarrow> 0 \<le> rhe x"
  using rhe_mono [of 0 x] rhe_of_int [of 0] by simp

lemma pow2_lt_imp: "(2::rat) powi a < 2 powi b \<Longrightarrow> a < b"
proof (rule ccontr)
  assume lt: "(2::rat) powi a < 2 powi b" and "\<not> a < b"
  then have "b \<le> a" by simp
  then have "(2::rat) powi b \<le> 2 powi a" by (rule power_int_increasing) simp
  with lt show False by simp
qed

lemma ilog2_bounds:
  assumes "0 < x"
  shows "2 powi (ilog2 x) \<le> x \<and> x < 2 powi (ilog2 x + 1)"
proof -
  obtain a b where q: "quotient_of x = (a, b)" by (cases "quotient_of x")
  have bpos: "0 < b" using q by (rule quotient_of_denom_pos)
  have x: "x = of_int a / of_int b" using q by (rule quotient_of_div)
  have apos: "0 < a"
    using assms bpos unfolding x by (simp add: zero_less_divide_iff)
  define la where "la = bitlen a"
  define lb where "lb = bitlen b"
  have la: "1 \<le> la" "2 ^ nat (la - 1) \<le> a" "a < 2 ^ nat la"
    using bitlen_bounds [OF apos] apos bitlen_eq_zero_iff [of a] bitlen_nonneg [of a]
    unfolding la_def by auto
  have lb: "1 \<le> lb" "2 ^ nat (lb - 1) \<le> b" "b < 2 ^ nat lb"
    using bitlen_bounds [OF bpos] bpos bitlen_eq_zero_iff [of b] bitlen_nonneg [of b]
    unfolding lb_def by auto
  have ra: "(2::rat) powi (la - 1) \<le> of_int a" "(of_int a :: rat) < 2 powi la"
  proof -
    have "(of_int (2 ^ nat (la - 1)) :: rat) \<le> of_int a" using la(2) by (simp only: of_int_le_iff)
    then show "(2::rat) powi (la - 1) \<le> of_int a" using la(1) by (simp add: power_int_def)
    have "(of_int a :: rat) < of_int (2 ^ nat la)" using la(3) by (simp only: of_int_less_iff)
    then show "(of_int a :: rat) < 2 powi la" using la(1) by (simp add: power_int_def)
  qed
  have rb: "(2::rat) powi (lb - 1) \<le> of_int b" "(of_int b :: rat) < 2 powi lb"
  proof -
    have "(of_int (2 ^ nat (lb - 1)) :: rat) \<le> of_int b" using lb(2) by (simp only: of_int_le_iff)
    then show "(2::rat) powi (lb - 1) \<le> of_int b" using lb(1) by (simp add: power_int_def)
    have "(of_int b :: rat) < of_int (2 ^ nat lb)" using lb(3) by (simp only: of_int_less_iff)
    then show "(of_int b :: rat) < 2 powi lb" using lb(1) by (simp add: power_int_def)
  qed
  have rbpos: "(0::rat) < of_int b" using bpos by simp
  have rapos: "(0::rat) < of_int a" using apos by simp
  have upper: "x < 2 powi (la - lb + 1)"
  proof -
    have "of_int a < (2::rat) powi la" by (rule ra(2))
    also have "\<dots> = 2 powi (la - lb + 1) * 2 powi (lb - 1)"
      by (simp flip: power_int_add)
    also have "\<dots> \<le> 2 powi (la - lb + 1) * of_int b"
      using rb(1) by (simp add: mult_left_mono)
    finally show ?thesis unfolding x using rbpos by (simp add: pos_divide_less_eq)
  qed
  have lower: "2 powi (la - lb - 1) \<le> x"
  proof -
    have "(2::rat) powi (la - lb - 1) * of_int b \<le> 2 powi (la - lb - 1) * 2 powi lb"
      using rb(2) by (simp add: mult_left_mono)
    also have "\<dots> = 2 powi (la - 1)"
      by (simp flip: power_int_add)
    also have "\<dots> \<le> of_int a" by (rule ra(1))
    finally show ?thesis unfolding x using rbpos by (simp add: pos_le_divide_eq)
  qed
  have il: "ilog2 x = (if 2 powi (la - lb) \<le> x then la - lb else la - lb - 1)"
    unfolding ilog2_def q la_def lb_def by (simp add: Let_def)
  show ?thesis
  proof (cases "2 powi (la - lb) \<le> x")
    case True
    with il upper show ?thesis by simp
  next
    case False
    with il lower show ?thesis by simp
  qed
qed

lemma ilog2_unique:
  assumes "0 < x" "2 powi e \<le> x" "x < 2 powi (e + 1)"
  shows "ilog2 x = e"
proof -
  from ilog2_bounds [OF assms(1)]
  have b: "2 powi (ilog2 x) \<le> x" "x < 2 powi (ilog2 x + 1)" by simp_all
  have "(2::rat) powi e < 2 powi (ilog2 x + 1)" using assms(2) b(2) by simp
  then have 1: "e < ilog2 x + 1" by (rule pow2_lt_imp)
  have "(2::rat) powi (ilog2 x) < 2 powi (e + 1)" using assms(3) b(1) by simp
  then have 2: "ilog2 x < e + 1" by (rule pow2_lt_imp)
  from 1 2 show ?thesis by simp
qed

lemma ilog2_mono:
  assumes "0 < x" "x \<le> y"
  shows "ilog2 x \<le> ilog2 y"
proof -
  have ypos: "0 < y" using assms by simp
  have "2 powi (ilog2 x) \<le> x" using ilog2_bounds [OF assms(1)] by simp
  also have "x \<le> y" by fact
  also have "y < 2 powi (ilog2 y + 1)" using ilog2_bounds [OF ypos] by simp
  finally have "ilog2 x < ilog2 y + 1" by (rule pow2_lt_imp)
  then show ?thesis by simp
qed


lemma rhe_numeral: "rhe (numeral n) = numeral n"
  using rhe_of_int [of "numeral n"] by simp

lemma fl_zero: "fl 0 = 0"
  by (simp add: fl_def)

lemma fl_pos:
  "0 < x \<Longrightarrow> fl x = of_int (rhe (x / 2 powi (max (ilog2 x - 52) (- 1074))))
                      * 2 powi (max (ilog2 x - 52) (- 1074))"
  by (simp add: fl_def Let_def)

lemma fl_nonneg: "0 \<le> x \<Longrightarrow> 0 \<le> fl x"
proof (cases "x = 0")
  case True
  then show ?thesis by (simp add: fl_zero)
next
  case False
  assume "0 \<le> x"
  with False have pos: "0 < x" by simp
  have "0 \<le> x / 2 powi (max (ilog2 x - 52) (- 1074))" using pos by simp
  then have "0 \<le> rhe (x / 2 powi (max (ilog2 x - 52) (- 1074)))" by (rule rhe_nonneg)
  then show ?thesis unfolding fl_pos [OF pos] by simp
qed

lemma fl_mono_pos:
  assumes xpos: "0 < x" and xy: "x \<le> y"
  shows "fl x \<le> fl y"
proof -
  have ypos: "0 < y" using xpos xy by simp
  define ex where "ex = max (ilog2 x - 52) (- 1074)"
  define ey where "ey = max (ilog2 y - 52) (- 1074)"
  have flx: "fl x = of_int (rhe (x / 2 powi ex)) * 2 powi ex"
    unfolding ex_def by (rule fl_pos [OF xpos])
  have fly: "fl y = of_int (rhe (y / 2 powi ey)) * 2 powi ey"
    unfolding ey_def by (rule fl_pos [OF ypos])
  have le: "ex \<le> ey"
    using ilog2_mono [OF xpos xy] unfolding ex_def ey_def by simp
  have px: "(0::rat) < 2 powi ex" and py: "(0::rat) < 2 powi ey" by simp_all
  show ?thesis
  proof (cases "ex = ey")
    case True
    have "x / 2 powi ey \<le> y / 2 powi ey" using xy py by (simp add: divide_right_mono)
    then have "rhe (x / 2 powi ey) \<le> rhe (y / 2 powi ey)" by (rule rhe_mono)
    then have "(of_int (rhe (x / 2 powi ey)) :: rat) \<le> of_int (rhe (y / 2 powi ey))"
      by (simp only: of_int_le_iff)
    then show ?thesis unfolding flx fly True using py by (simp add: mult_right_mono)
  next
    case False
    with le have lt: "ex + 1 \<le> ey" by simp
    have xb: "x < 2 powi (ex + 53)"
    proof -
      have "x < 2 powi (ilog2 x + 1)" using ilog2_bounds [OF xpos] by simp
      also have "\<dots> \<le> 2 powi (ex + 53)"
        by (rule power_int_increasing) (simp_all add: ex_def)
      finally show ?thesis .
    qed
    have "x / 2 powi ex \<le> 2 powi 53"
    proof -
      have "(2::rat) powi (ex + 53) = 2 powi ex * 2 powi 53" by (rule power_int_add) simp
      with xb have "x < 2 powi 53 * 2 powi ex" by (simp only: mult.commute)
      then have "x / 2 powi ex < 2 powi 53" using px by (simp only: pos_divide_less_eq)
      then show ?thesis by (rule less_imp_le)
    qed
    then have "x / 2 powi ex \<le> of_int (2 ^ 53)" by simp
    then have "rhe (x / 2 powi ex) \<le> rhe (of_int (2 ^ 53))" by (rule rhe_mono)
    then have mx: "rhe (x / 2 powi ex) \<le> 2 ^ 53" by (simp only: rhe_of_int)
    have eyv: "ey = ilog2 y - 52"
    proof -
      have "- 1074 \<le> ex" by (simp add: ex_def)
      with lt have "- 1074 < ey" by simp
      then show ?thesis unfolding ey_def by simp
    qed
    have "2 powi 52 \<le> y / 2 powi ey"
    proof -
      have "(2::rat) powi 52 * 2 powi (ilog2 y - 52) = 2 powi (52 + (ilog2 y - 52))"
        by (rule power_int_add [symmetric]) simp
      moreover have "52 + (ilog2 y - 52) = ilog2 y" by arith
      ultimately have "(2::rat) powi 52 * 2 powi ey = 2 powi (ilog2 y)"
        unfolding eyv by (simp only:)
      also have "\<dots> \<le> y" using ilog2_bounds [OF ypos] by simp
      finally show ?thesis using py by (simp add: pos_le_divide_eq)
    qed
    then have "of_int (2 ^ 52) \<le> y / 2 powi ey" by simp
    then have "rhe (of_int (2 ^ 52)) \<le> rhe (y / 2 powi ey)" by (rule rhe_mono)
    then have my: "2 ^ 52 \<le> rhe (y / 2 powi ey)" by (simp only: rhe_of_int)
    have mxr: "(of_int (rhe (x / 2 powi ex)) :: rat) \<le> of_int (2 ^ 53)"
      using mx by (simp only: of_int_le_iff)
    have myr: "(of_int (2 ^ 52) :: rat) \<le> of_int (rhe (y / 2 powi ey))"
      using my by (simp only: of_int_le_iff)
    have "fl x \<le> of_int (2 ^ 53) * 2 powi ex"
      unfolding flx by (rule mult_right_mono [OF mxr less_imp_le [OF px]])
    also have "\<dots> = 2 powi (ex + 53)"
    proof -
      have "(2::rat) powi (ex + 53) = 2 powi ex * 2 powi 53" by (rule power_int_add) simp
      then show ?thesis by (simp add: mult.commute)
    qed
    also have "\<dots> \<le> 2 powi (ey + 52)"
      by (rule power_int_increasing) (use lt in simp_all)
    also have "\<dots> = of_int (2 ^ 52) * 2 powi ey"
    proof -
      have "(2::rat) powi (ey + 52) = 2 powi ey * 2 powi 52" by (rule power_int_add) simp
      then show ?thesis by (simp add: mult.commute)
    qed
    also have "\<dots> \<le> fl y"
      unfolding fly by (rule mult_right_mono [OF myr less_imp_le [OF py]])
    finally show ?thesis .
  qed
qed

lemma fl_mono: "0 \<le> x \<Longrightarrow> x \<le> y \<Longrightarrow> fl x \<le> fl y"
proof (cases "x = 0")
  case True
  assume "x \<le> y"
  with True have "0 \<le> y" by simp
  then show ?thesis unfolding True fl_zero by (rule fl_nonneg)
next
  case False
  assume "0 \<le> x" "x \<le> y"
  with False show ?thesis by (intro fl_mono_pos) simp_all
qed

lemma fl_eval:
  assumes "0 < x" "2 powi e \<le> x" "x < 2 powi (e + 1)" "- 1022 \<le> e"
  shows "fl x = of_int (rhe (x / 2 powi (e - 52))) * 2 powi (e - 52)"
proof -
  have "ilog2 x = e" using assms(1-3) by (rule ilog2_unique)
  moreover have "max (e - 52) (- 1074) = e - 52" using assms(4) by simp
  ultimately show ?thesis using fl_pos [OF assms(1)] by simp
qed

lemma fl_one: "fl 1 = 1"
  using fl_eval [of 1 0] by (simp add: rhe_numeral)

lemma fl_hundred: "fl 100 = 100"
  using fl_eval [of 100 6] by (simp add: rhe_numeral)

lemma fl_two63: "fl (2 ^ 63) = 2 ^ 63"
  using fl_eval [of "2 ^ 63" 63] by (simp add: rhe_numeral)

lemma fl_two70: "fl (2 ^ 70) = 2 ^ 70"
  using fl_eval [of "2 ^ 70" 70] by (simp add: rhe_numeral)

section \<open>The percent of a downloading callback\<close>

lemma rhe_frac:
  assumes "0 < b"
  shows "rhe (of_int a / of_int b) =
     (if 2 * (a mod b) < b then a div b
      else if b < 2 * (a mod b) then a div b + 1
      else if even (a div b) then a div b else a div b + 1)"
proof -
  have bp: "(0::rat) < of_int b" using assms by simp
  have f: "\<lfloor>(of_int a / of_int b :: rat)\<rfloor> = a div b" by (rule floor_divide_of_int_eq)
  have "b * (a div b) + a mod b = a" by (rule mult_div_mod_eq)
  then have "(of_int a :: rat) = of_int (b * (a div b) + a mod b)" by (simp only:)
  also have "\<dots> = of_int b * of_int (a div b) + of_int (a mod b)"
    by (simp only: of_int_add of_int_mult)
  finally have "(of_int a / of_int b :: rat) = of_int (a div b) + of_int (a mod b) / of_int b"
    using bp by (simp add: field_simps)
  then have r: "(of_int a / of_int b :: rat) - of_int (a div b) = of_int (a mod b) / of_int b"
    by simp
  have lt: "(of_int (a mod b) / of_int b :: rat) < 1 / 2 \<longleftrightarrow> 2 * (a mod b) < b"
  proof -
    have "(of_int (a mod b) / of_int b :: rat) < 1 / 2
        \<longleftrightarrow> (of_int (2 * (a mod b)) :: rat) < of_int b"
      using bp by (simp add: field_simps)
    then show ?thesis by (simp only: of_int_less_iff)
  qed
  have gt: "1 / 2 < (of_int (a mod b) / of_int b :: rat) \<longleftrightarrow> b < 2 * (a mod b)"
  proof -
    have "1 / 2 < (of_int (a mod b) / of_int b :: rat)
        \<longleftrightarrow> (of_int b :: rat) < of_int (2 * (a mod b))"
      using bp by (simp add: field_simps)
    then show ?thesis by (simp only: of_int_less_iff)
  qed
  show ?thesis
    unfolding rhe_def Let_def f r lt gt by (rule refl)
qed

lemma fl_half: "fl (1 / 2) = 1 / 2"
  using fl_eval [of "1 / 2" "- 1"] by (simp add: rhe_numeral)

lemma fl_fifty: "fl 50 = 50"
  using fl_eval [of 50 5] by (simp add: rhe_numeral)

lemma fl_three_halves: "fl (3 / 2) = 3 / 2"
  using fl_eval [of "3 / 2" 0] by (simp add: rhe_numeral)

lemma fl_150: "fl 150 = 150"
  using fl_eval [of 150 7] by (simp add: rhe_numeral)

lemma fl_29_100: "fl (29 / 100) = 5224175567749775 / 18014398509481984"
proof -
  have x: "(29 / 100 :: rat) / 2 powi (- 2 - 52) = of_int 130604389193744384 / of_int 25"
    by simp
  have r: "rhe (of_int 130604389193744384 / of_int 25) = 5224175567749775"
    by (subst rhe_frac) simp_all
  have "fl (29 / 100) = of_int (rhe ((29 / 100) / 2 powi (- 2 - 52))) * 2 powi (- 2 - 52)"
    by (rule fl_eval) simp_all
  then show ?thesis unfolding x r by simp
qed

lemma fl_29: "fl (5224175567749775 / 18014398509481984 * 100) = 8162774324609023 / 281474976710656"
proof -
  have x: "(5224175567749775 / 18014398509481984 * 100 :: rat) / 2 powi (4 - 52)
      = of_int 130604389193744375 / of_int 16"
    by simp
  have r: "rhe (of_int 130604389193744375 / of_int 16) = 8162774324609023"
    by (subst rhe_frac) simp_all
  have "fl (5224175567749775 / 18014398509481984 * 100)
      = of_int (rhe ((5224175567749775 / 18014398509481984 * 100) / 2 powi (4 - 52)))
          * 2 powi (4 - 52)"
    by (rule fl_eval) simp_all
  then show ?thesis unfolding x r by simp
qed

lemma spec_percent_50: "spec_percent 50 100 = 50"
  by (simp add: spec_percent_def fl_half fl_fifty)

lemma spec_percent_100: "spec_percent 100 100 = 100"
  by (simp add: spec_percent_def fl_one fl_hundred)

lemma spec_percent_150: "spec_percent 150 100 = 150"
  by (simp add: spec_percent_def fl_three_halves fl_150)

lemma spec_percent_29: "spec_percent 29 100 = 28"
proof -
  have "spec_percent 29 100 = \<lfloor>fl (fl (29 / 100) * 100)\<rfloor>" by (simp add: spec_percent_def)
  also have "\<dots> = \<lfloor>(8162774324609023 / 281474976710656 :: rat)\<rfloor>"
    unfolding fl_29_100 fl_29 by (rule refl)
  also have "\<dots> = \<lfloor>(of_int 8162774324609023 / of_int 281474976710656 :: rat)\<rfloor>"
    by simp
  also have "\<dots> = 8162774324609023 div 281474976710656"
    by (rule floor_divide_of_int_eq)
  also have "\<dots> = 28" by simp
  finally show ?thesis .
qed

lemma quotient_bounds:
  assumes "0 \<le> n" "n < 2 ^ 63" "0 < tot"
  shows "0 \<le> fl (of_int n / of_int tot)" "fl (of_int n / of_int tot) \<le> 2 ^ 63"
proof -
  have nn: "(0::rat) \<le> of_int n / of_int tot" using assms by simp
  then show "0 \<le> fl (of_int n / of_int tot)" by (rule fl_nonneg)
  have one: "(1::rat) \<le> of_int tot" using assms(3) by simp
  have n0: "(0::rat) \<le> of_int n" using assms(1) by simp
  have "(of_int n :: rat) * 1 \<le> of_int n * of_int tot" using one n0 by (rule mult_left_mono)
  then have "(of_int n :: rat) / of_int tot \<le> of_int n"
    using assms(3) by (simp add: divide_le_eq)
  also have "(of_int n :: rat) \<le> of_int (2 ^ 63)"
    using assms(2) by (simp only: of_int_le_iff)
  finally have "(of_int n :: rat) / of_int tot \<le> 2 ^ 63" by simp
  with nn have "fl (of_int n / of_int tot) \<le> fl (2 ^ 63)" by (rule fl_mono)
  then show "fl (of_int n / of_int tot) \<le> 2 ^ 63" by (simp only: fl_two63)
qed

lemma product_bounds:
  assumes "0 \<le> n" "n < 2 ^ 63" "0 < tot"
  shows "0 \<le> fl (fl (of_int n / of_int tot) * 100)"
    "fl (fl (of_int n / of_int tot) * 100) \<le> 2 ^ 70"
proof -
  let ?q = "fl (of_int n / of_int tot)"
  have q: "0 \<le> ?q" "?q \<le> 2 ^ 63" using quotient_bounds [OF assms] by simp_all
  have nn: "0 \<le> ?q * 100" using q(1) by simp
  then show "0 \<le> fl (?q * 100)" by (rule fl_nonneg)
  have "?q * 100 \<le> 2 ^ 63 * 100" using q(2) by simp
  also have "\<dots> \<le> (2 ^ 70 :: rat)" by simp
  finally have "?q * 100 \<le> 2 ^ 70" .
  with nn have "fl (?q * 100) \<le> fl (2 ^ 70)" by (rule fl_mono)
  then show "fl (?q * 100) \<le> 2 ^ 70" by (simp only: fl_two70)
qed

lemma percent_of_value:
  assumes "0 \<le> n" "n < 2 ^ 63" "0 < tot"
  shows "percent_of n tot = Inr (spec_percent n tot)"
proof -
  let ?q = "fl (of_int n / of_int tot)"
  let ?p = "fl (?q * 100)"
  have q: "0 \<le> ?q" "?q \<le> 2 ^ 63" using quotient_bounds [OF assms] by simp_all
  have p: "0 \<le> ?p" "?p \<le> 2 ^ 70" using product_bounds [OF assms] by simp_all
  have "(2 ^ 63 :: rat) < 2 ^ 1024" by simp
  with q have nq: "\<not> dbl_overflow ?q" by (simp add: dbl_overflow_def)
  have "(2 ^ 70 :: rat) < 2 ^ 1024" by simp
  with p have np: "\<not> dbl_overflow ?p" by (simp add: dbl_overflow_def)
  have tz: "tot \<noteq> 0" using assms(3) by simp
  show ?thesis
    using nq np p(1) tz
    by (simp add: percent_of_def int_truediv_def Let_def py_int_def spec_percent_def)
qed

lemma spec_percent_mono:
  assumes "0 \<le> m" "m \<le> n" "0 < tot"
  shows "spec_percent m tot \<le> spec_percent n tot"
proof -
  have t: "(0::rat) < of_int tot" using assms(3) by simp
  have m0: "(0::rat) \<le> of_int m / of_int tot" using assms(1,3) by simp
  have "(of_int m :: rat) \<le> of_int n" using assms(2) by (simp only: of_int_le_iff)
  then have "(of_int m :: rat) / of_int tot \<le> of_int n / of_int tot"
    using t by (simp add: divide_right_mono)
  with m0 have q: "fl (of_int m / of_int tot) \<le> fl (of_int n / of_int tot)" by (rule fl_mono)
  have q0: "0 \<le> fl (of_int m / of_int tot)" using m0 by (rule fl_nonneg)
  from q have "fl (of_int m / of_int tot) * 100 \<le> fl (of_int n / of_int tot) * 100" by simp
  moreover have "0 \<le> fl (of_int m / of_int tot) * 100" using q0 by simp
  ultimately have "fl (fl (of_int m / of_int tot) * 100) \<le> fl (fl (of_int n / of_int tot) * 100)"
    by (rule fl_mono [rotated])
  then show ?thesis unfolding spec_percent_def by (rule floor_mono)
qed

lemma spec_percent_range:
  assumes "0 \<le> n" "n \<le> tot" "0 < tot"
  shows "0 \<le> spec_percent n tot \<and> spec_percent n tot \<le> 100"
proof -
  have t: "(0::rat) < of_int tot" using assms(3) by simp
  have n0: "(0::rat) \<le> of_int n / of_int tot" using assms(1,3) by simp
  have "(of_int n :: rat) \<le> of_int tot" using assms(2) by (simp only: of_int_le_iff)
  then have "(of_int n :: rat) / of_int tot \<le> 1" using t by (simp add: divide_le_eq)
  with n0 have "fl (of_int n / of_int tot) \<le> fl 1" by (rule fl_mono)
  then have q1: "fl (of_int n / of_int tot) \<le> 1" by (simp only: fl_one)
  have q0: "0 \<le> fl (of_int n / of_int tot)" using n0 by (rule fl_nonneg)
  have p0: "0 \<le> fl (of_int n / of_int tot) * 100" using q0 by simp
  have "fl (of_int n / of_int tot) * 100 \<le> 100" using q1 by simp
  with p0 have "fl (fl (of_int n / of_int tot) * 100) \<le> fl 100" by (rule fl_mono)
  then have p100: "fl (fl (of_int n / of_int tot) * 100) \<le> 100" by (simp only: fl_hundred)
  have pn: "0 \<le> fl (fl (of_int n / of_int tot) * 100)" using p0 by (rule fl_nonneg)
  have "\<lfloor>fl (fl (of_int n / of_int tot) * 100)\<rfloor> \<le> \<lfloor>100 :: rat\<rfloor>"
    using p100 by (rule floor_mono)
  moreover have "\<lfloor>0 :: rat\<rfloor> \<le> \<lfloor>fl (fl (of_int n / of_int tot) * 100)\<rfloor>"
    using pn by (rule floor_mono)
  ultimately show ?thesis unfolding spec_percent_def by simp
qed

lemma spec_percent_zero: "spec_percent 0 tot = 0"
  by (simp add: spec_percent_def fl_zero)

lemma hook_percent_value:
  assumes "0 \<le> n" "n < 2 ^ 63" "0 < tot"
  shows "hook_percent (py_or (Some tot) est) (Some n) = Inr (spec_percent n tot)"
proof -
  have po: "py_or (Some tot) est = Some tot" using assms(3) by (simp add: py_or_def truthy_def)
  show ?thesis
  proof (cases "n = 0")
    case True
    then show ?thesis unfolding po by (simp add: spec_percent_zero)
  next
    case False
    then show ?thesis unfolding po using assms(3) percent_of_value [OF assms] by simp
  qed
qed

lemma progress_hook_downloading:
  assumes "downloading w" "\<not> cancel_requested w" "progress_callback w"
    and "0 \<le> n" "n < 2 ^ 63" "0 < tot"
  shows "progress_hook w (downloading_callback tot est n)
     = Inr (w\<lparr>events := events w @ [\<lparr>percent = spec_percent n tot, pstatus = SDownloading\<rparr>]\<rparr>)"
  using assms(1-3) hook_percent_value [OF assms(4-6), of est]
  by (simp add: progress_hook_def downloading_callback_def emit_def)

lemma progress_hook_2025_downloading:
  assumes "0 \<le> n" "n < 2 ^ 63" "0 < tot"
  shows "progress_hook_2025 (downloading_callback tot est n) = Inr [spec_percent n tot]"
  using hook_percent_value [OF assms, of est]
  by (simp add: progress_hook_2025_def downloading_callback_def)

lemma run_hooks_downloading:
  assumes "0 < tot"
  shows "downloading w \<Longrightarrow> \<not> cancel_requested w \<Longrightarrow> progress_callback w \<Longrightarrow>
     \<forall>n\<in>set ns. 0 \<le> n \<and> n < 2 ^ 63 \<Longrightarrow>
     run_hooks w (map (downloading_callback tot est) ns)
       = Inr (w\<lparr>events := events w @
            map (\<lambda>n. \<lparr>percent = spec_percent n tot, pstatus = SDownloading\<rparr>) ns\<rparr>)"
proof (induction ns arbitrary: w)
  case Nil
  show ?case by simp
next
  case (Cons n ns)
  let ?w1 = "w\<lparr>events := events w @ [\<lparr>percent = spec_percent n tot, pstatus = SDownloading\<rparr>]\<rparr>"
  have n: "0 \<le> n" "n < 2 ^ 63" using Cons.prems(4) by simp_all
  have h: "progress_hook w (downloading_callback tot est n) = Inr ?w1"
    using Cons.prems(1-3) n assms by (rule progress_hook_downloading)
  have rest: "\<forall>n\<in>set ns. 0 \<le> n \<and> n < 2 ^ 63" using Cons.prems(4) by simp
  have "run_hooks ?w1 (map (downloading_callback tot est) ns)
       = Inr (?w1\<lparr>events := events ?w1 @
            map (\<lambda>n. \<lparr>percent = spec_percent n tot, pstatus = SDownloading\<rparr>) ns\<rparr>)"
    using Cons.prems(1-3) rest by (intro Cons.IH) simp_all
  with h show ?case by simp
qed

lemma run_hooks_2025_downloading:
  assumes "0 < tot"
  shows "\<forall>n\<in>set ns. 0 \<le> n \<and> n < 2 ^ 63 \<Longrightarrow>
     run_hooks_2025 (map (downloading_callback tot est) ns)
       = Inr (map (\<lambda>n. spec_percent n tot) ns)"
proof (induction ns)
  case Nil
  show ?case by simp
next
  case (Cons n ns)
  have n: "0 \<le> n" "n < 2 ^ 63" using Cons.prems by simp_all
  have h: "progress_hook_2025 (downloading_callback tot est n) = Inr [spec_percent n tot]"
    using n assms by (rule progress_hook_2025_downloading)
  have "run_hooks_2025 (map (downloading_callback tot est) ns)
       = Inr (map (\<lambda>n. spec_percent n tot) ns)"
    using Cons.prems by (intro Cons.IH) simp
  with h show ?case by simp
qed

lemma sorted_spec_percent:
  assumes "0 < tot"
  shows "sorted ns \<Longrightarrow> \<forall>n\<in>set ns. 0 \<le> n \<Longrightarrow> sorted (map (\<lambda>n. spec_percent n tot) ns)"
proof (induction ns)
  case Nil
  show ?case by simp
next
  case (Cons n ns)
  have "\<forall>m\<in>set ns. spec_percent n tot \<le> spec_percent m tot"
  proof
    fix m assume "m \<in> set ns"
    with Cons.prems have "0 \<le> n" "n \<le> m" by auto
    then show "spec_percent n tot \<le> spec_percent m tot" using assms by (rule spec_percent_mono)
  qed
  moreover have "sorted (map (\<lambda>n. spec_percent n tot) ns)"
    using Cons.prems by (intro Cons.IH) simp_all
  ultimately show ?case by simp
qed

text \<open>
  C2, amended: for a running, uncancelled download with a callback, a fixed known total
  \<open>tot > 0\<close> and non-decreasing downloaded counters between 0 and \<open>2\<^sup>6\<^sup>3\<close>, both hooks
  emit one percent per callback, equal to the floor of the double-precision value of
  \<open>(downloaded / total) * 100\<close>; the emitted percents are non-decreasing; and a
  percent lies in \<open>[0, 100]\<close> whenever its counter does not exceed the total. Nothing
  clamps it otherwise.
\<close>

theorem percent_sequence:
  assumes st: "downloading w" "\<not> cancel_requested w" "progress_callback w"
    and tot: "0 < tot"
    and rng: "\<forall>n\<in>set ns. 0 \<le> n \<and> n < 2 ^ 63"
    and srt: "sorted ns"
  shows "run_hooks w (map (downloading_callback tot est) ns)
       = Inr (w\<lparr>events := events w @
            map (\<lambda>n. \<lparr>percent = spec_percent n tot, pstatus = SDownloading\<rparr>) ns\<rparr>)
     \<and> run_hooks_2025 (map (downloading_callback tot est) ns)
       = Inr (map (\<lambda>n. spec_percent n tot) ns)
     \<and> sorted (map (\<lambda>n. spec_percent n tot) ns)
     \<and> (\<forall>n\<in>set ns. n \<le> tot \<longrightarrow> 0 \<le> spec_percent n tot \<and> spec_percent n tot \<le> 100)"
proof -
  have a: "run_hooks w (map (downloading_callback tot est) ns)
       = Inr (w\<lparr>events := events w @
            map (\<lambda>n. \<lparr>percent = spec_percent n tot, pstatus = SDownloading\<rparr>) ns\<rparr>)"
    using tot st rng by (rule run_hooks_downloading)
  have b: "run_hooks_2025 (map (downloading_callback tot est) ns)
       = Inr (map (\<lambda>n. spec_percent n tot) ns)"
    using tot rng by (rule run_hooks_2025_downloading)
  have c: "sorted (map (\<lambda>n. spec_percent n tot) ns)"
    using tot srt rng by (intro sorted_spec_percent) simp_all
  have d: "\<forall>n\<in>set ns. n \<le> tot \<longrightarrow> 0 \<le> spec_percent n tot \<and> spec_percent n tot \<le> 100"
    using rng tot spec_percent_range by blast
  from a b c d show ?thesis by blast
qed

theorem percent_sequence_witness:
  "downloading \<lparr>downloading = True, cancel_requested = False, ydl_instance = True,
       progress_callback = True, events = [], swept = []\<rparr>
   \<and> (0::int) < 100 \<and> (0::int) \<le> 50 \<and> (100::int) < 2 ^ 63
   \<and> sorted [50, 100 :: int]
   \<and> run_hooks \<lparr>downloading = True, cancel_requested = False, ydl_instance = True,
       progress_callback = True, events = [], swept = []\<rparr>
       (map (downloading_callback 100 None) [50, 100])
     = Inr \<lparr>downloading = True, cancel_requested = False, ydl_instance = True,
         progress_callback = True,
         events = [\<lparr>percent = 50, pstatus = SDownloading\<rparr>,
                   \<lparr>percent = 100, pstatus = SDownloading\<rparr>],
         swept = []\<rparr>
   \<and> run_hooks_2025 (map (downloading_callback 100 None) [50, 100]) = Inr [50, 100]"
  using percent_sequence
    [of "\<lparr>downloading = True, cancel_requested = False, ydl_instance = True,
          progress_callback = True, events = [], swept = []\<rparr>" 100 "[50, 100]" None]
  by (simp add: spec_percent_50 spec_percent_100)

text \<open>
  C2, as stated: every percent is clamped to \<open>[0, 100]\<close> and equals
  \<open>floor(downloaded/total*100)\<close>. With 150 bytes reported against a total of 100 (a
  total that was an underestimate) the hook emits 150. With 29 of 100 it emits 28,
  one less than the floor of the exact value, because the quotient and the product
  are rounded to doubles.
\<close>

theorem percent_not_clamped:
  "run_hooks \<lparr>downloading = True, cancel_requested = False, ydl_instance = True,
       progress_callback = True, events = [], swept = []\<rparr>
       [downloading_callback 100 None 150]
     = Inr \<lparr>downloading = True, cancel_requested = False, ydl_instance = True,
         progress_callback = True,
         events = [\<lparr>percent = 150, pstatus = SDownloading\<rparr>], swept = []\<rparr>
   \<and> run_hooks_2025 [downloading_callback 100 None 29] = Inr [28]
   \<and> \<lfloor>(29 :: rat) / 100 * 100\<rfloor> = 29"
proof -
  have a: "progress_hook \<lparr>downloading = True, cancel_requested = False, ydl_instance = True,
       progress_callback = True, events = [], swept = []\<rparr>
       (downloading_callback 100 None 150)
     = Inr \<lparr>downloading = True, cancel_requested = False, ydl_instance = True,
         progress_callback = True,
         events = [\<lparr>percent = 150, pstatus = SDownloading\<rparr>], swept = []\<rparr>"
    by (subst progress_hook_downloading) (simp_all add: spec_percent_150)
  have b: "progress_hook_2025 (downloading_callback 100 None 29) = Inr [28]"
    by (subst progress_hook_2025_downloading) (simp_all add: spec_percent_29)
  show ?thesis using a b by simp
qed

section \<open>A cancel that arrives late\<close>

text \<open>
  C4: after an accepted cancel the terminal event is never \<^verbatim>\<open>'complete'\<close>. The
  flag is read only before \<^verbatim>\<open>ydl.download\<close> and in hook calls with the status
  \<^verbatim>\<open>'downloading'\<close>. Here the last such call has been made when the cancel is
  accepted; the library goes on to its \<^verbatim>\<open>'finished'\<close> call (which the hook now
  passes over in silence) and returns, and \<^verbatim>\<open>download_video\<close> emits
  \<^verbatim>\<open>'complete'\<close> and reports success.
\<close>

theorem late_cancel_still_completes:
  "snd (cancel_download
      \<lparr>downloading = True, cancel_requested = False, ydl_instance = True,
       progress_callback = True,
       events = [\<lparr>percent = 100, pstatus = SDownloading\<rparr>], swept = []\<rparr>) = True
   \<and> download_video
      \<lparr>ydl_open = None, extract_info = Inr (Some ''a''), cancel_before_download = False,
       during_download =
         [Hook (downloading_callback 100 None 100),
          CancelClick,
          Hook \<lparr>status = Finished, total_bytes = Some 100,
            total_bytes_estimate = None, downloaded_bytes = Some 100\<rparr>],
       download_end = None\<rparr> ''/d''
      \<lparr>downloading = False, cancel_requested = False, ydl_instance = False,
       progress_callback = True, events = [], swept = []\<rparr>
   = (\<lparr>downloading = False, cancel_requested = False, ydl_instance = False,
       progress_callback = True,
       events = [\<lparr>percent = 100, pstatus = SDownloading\<rparr>,
                 \<lparr>percent = 100, pstatus = SComplete\<rparr>],
       swept = [''/d'']\<rparr>, ''a'', True)"
proof -
  have hook: "progress_hook
      \<lparr>downloading = True, cancel_requested = False, ydl_instance = True,
       progress_callback = True, events = [], swept = []\<rparr>
      (downloading_callback 100 None 100)
    = Inr \<lparr>downloading = True, cancel_requested = False, ydl_instance = True,
       progress_callback = True,
       events = [\<lparr>percent = 100, pstatus = SDownloading\<rparr>], swept = []\<rparr>"
    by (subst progress_hook_downloading) (simp_all add: spec_percent_100)
  have fin: "progress_hook
      \<lparr>downloading = True, cancel_requested = True, ydl_instance = True,
       progress_callback = True,
       events = [\<lparr>percent = 100, pstatus = SDownloading\<rparr>], swept = []\<rparr>
      \<lparr>status = Finished, total_bytes = Some 100,
        total_bytes_estimate = None, downloaded_bytes = Some 100\<rparr>
    = Inr \<lparr>downloading = True, cancel_requested = True, ydl_instance = True,
       progress_callback = True,
       events = [\<lparr>percent = 100, pstatus = SDownloading\<rparr>], swept = []\<rparr>"
    by (simp add: progress_hook_def)
  show ?thesis
    by (simp add: download_video_def try_block_def hook fin cancel_download_def emit_def
          sweep_def)
qed

end
